theory Spec2Isabelle
  imports Main "HOL-Library.Sublist"
begin

section \<open>Text: Python strings as lists of code points\<close>

text \<open>
  A Python \<open>str\<close> is a sequence of Unicode code points, and the literals of the source file
  hold code points above U+00FF, so a character is a natural number and a string a list of
  them.  \<open>ustr\<close> embeds an ASCII literal.

  Character classes follow CPython: \<open>isspace\<close> is the complete table of \<open>str.isspace\<close>
  (which is also the class \<open>\s\<close> of \<open>re\<close> on text patterns).  The tables behind
  \<open>str.isupper\<close>, \<open>str.lower\<close> and the class \<open>\w\<close> belong to the interpreter, not to the
  program: \<open>isupper_cp\<close>, \<open>lower_cp\<close> and \<open>isword\<close> give them for the blocks Basic Latin and
  Latin-1 Supplement (U+0000 to U+00FF) and for two code points above, U+0130 (whose lower
  case is the two code points U+0069 U+0307) and U+1D400 (an uppercase letter that
  \<open>str.lower\<close> leaves as it is).  On every other code point they are left unspecified, so
  what is proved holds whatever the interpreter's tables say there.
\<close>

type_synonym uchar = nat
type_synonym ustr = "nat list"

definition ustr :: "string \<Rightarrow> ustr" where
  "ustr s = map of_char s"

definition isspace :: "uchar \<Rightarrow> bool" where
  "isspace c \<longleftrightarrow>
     (9 \<le> c \<and> c \<le> 13) \<or> (28 \<le> c \<and> c \<le> 32) \<or> c = 133 \<or> c = 160 \<or> c = 5760 \<or>
     (8192 \<le> c \<and> c \<le> 8202) \<or> c = 8232 \<or> c = 8233 \<or> c = 8239 \<or> c = 8287 \<or> c = 12288"

text \<open>The uppercase letters of U+0000 to U+00FF.\<close>

definition latin_upper :: "uchar \<Rightarrow> bool" where
  "latin_upper c \<longleftrightarrow> (65 \<le> c \<and> c \<le> 90) \<or> (192 \<le> c \<and> c \<le> 214) \<or> (216 \<le> c \<and> c \<le> 222)"

text \<open>\<open>c.isupper()\<close> for one code point.\<close>

definition isupper_cp :: "uchar \<Rightarrow> bool" where
  "isupper_cp c =
     (if c \<le> 255 then latin_upper c
      else if c = 119808 then True
      else undefined c)"

text \<open>\<open>c.lower()\<close> for one code point; the result can be longer than one code point.\<close>

definition lower_cp :: "uchar \<Rightarrow> ustr" where
  "lower_cp c =
     (if c \<le> 255 then (if latin_upper c then [c + 32] else [c])
      else if c = 304 then [105, 775]
      else if c = 119808 then [c]
      else undefined c)"

text \<open>The class \<open>\w\<close>: alphanumeric code points and the underscore.\<close>

definition isword :: "uchar \<Rightarrow> bool" where
  "isword c =
     (if c \<le> 255 then
        (48 \<le> c \<and> c \<le> 57) \<or> (65 \<le> c \<and> c \<le> 90) \<or> c = 95 \<or> (97 \<le> c \<and> c \<le> 122) \<or>
        c = 170 \<or> c = 178 \<or> c = 179 \<or> c = 181 \<or> c = 185 \<or> c = 186 \<or> (188 \<le> c \<and> c \<le> 190) \<or>
        (192 \<le> c \<and> c \<le> 214) \<or> (216 \<le> c \<and> c \<le> 246) \<or> (248 \<le> c \<and> c \<le> 255)
      else undefined c)"

text \<open>\<open>s.lower()\<close>\<close>

definition py_lower :: "ustr \<Rightarrow> ustr" where
  "py_lower s = concat (map lower_cp s)"

text \<open>\<open>s.strip()\<close>: whitespace removed at both ends.\<close>

definition py_strip :: "ustr \<Rightarrow> ustr" where
  "py_strip s = rev (dropWhile isspace (rev (dropWhile isspace s)))"

text \<open>\<open>sub in s\<close>: \<open>sub\<close> occurs in \<open>s\<close> as a contiguous block.\<close>

fun contains :: "'a list \<Rightarrow> 'a list \<Rightarrow> bool" where
  "contains sub [] = (sub = [])"
| "contains sub (c # cs) = (prefix sub (c # cs) \<or> contains sub cs)"

text \<open>\<open>s.startswith(p)\<close>\<close>

definition startswith :: "'a list \<Rightarrow> 'a list \<Rightarrow> bool" where
  "startswith s p = prefix p s"

text \<open>
  \<open>s.split()\<close> with no argument: the maximal blocks of non-whitespace, in order; no empty
  string in the result.  \<open>w\<close> is the word being read, reversed.
\<close>

fun words_acc :: "ustr \<Rightarrow> ustr \<Rightarrow> ustr list" where
  "words_acc w [] = (if w = [] then [] else [rev w])"
| "words_acc w (c # cs) =
     (if isspace c then (if w = [] then words_acc [] cs else rev w # words_acc [] cs)
      else words_acc (c # w) cs)"

definition py_split_ws :: "ustr \<Rightarrow> ustr list" where
  "py_split_ws s = words_acc [] s"

text \<open>\<open>sep.join(xs)\<close>\<close>

fun py_join :: "'a list \<Rightarrow> 'a list list \<Rightarrow> 'a list" where
  "py_join sep [] = []"
| "py_join sep [x] = x"
| "py_join sep (x # y # ys) = x @ sep @ py_join sep (y # ys)"

text \<open>
  The first occurrence of a non-empty \<open>sep\<close> in \<open>s\<close>: the text before it and the text after
  it, or \<open>None\<close> when \<open>sep\<close> does not occur.
\<close>

fun cut :: "'a list \<Rightarrow> 'a list \<Rightarrow> ('a list \<times> 'a list) option" where
  "cut sep [] = None"
| "cut sep (c # cs) =
     (if sep \<noteq> [] \<and> prefix sep (c # cs) then Some ([], drop (length sep) (c # cs))
      else (case cut sep cs of None \<Rightarrow> None | Some (a, b) \<Rightarrow> Some (c # a, b)))"

lemma cut_length: "cut sep s = Some (a, b) \<Longrightarrow> length b < length s"
proof (induction s arbitrary: a b)
  case Nil
  then show ?case by simp
next
  case (Cons c cs)
  show ?case
  proof (cases "sep \<noteq> [] \<and> prefix sep (c # cs)")
    case True
    with Cons.prems have "b = drop (length sep) (c # cs)" by simp
    moreover from True have "0 < length sep" by simp
    ultimately show ?thesis by simp
  next
    case False
    with Cons.prems obtain a' where "cut sep cs = Some (a', b)"
      by (auto split: option.splits)
    from Cons.IH [OF this] show ?thesis by simp
  qed
qed

text \<open>
  \<open>s.split(sep)\<close> for a non-empty separator: every occurrence of \<open>sep\<close>, found left to right,
  ends a part; the result always has at least one part.
\<close>

function py_split :: "'a list \<Rightarrow> 'a list \<Rightarrow> 'a list list" where
  "py_split sep s = (case cut sep s of None \<Rightarrow> [s] | Some (a, b) \<Rightarrow> a # py_split sep b)"
  by pat_completeness auto
termination
  by (relation "measure (\<lambda>(sep, s). length s)") (auto dest: cut_length)

declare py_split.simps [simp del]

section \<open>Content Formatter: the section split of \<open>clean_and_format_text\<close>\<close>

text \<open>
  Lines 50 to 60: one pass over the cleaned lines with the variable \<open>section\<close>.  A line whose
  lower-cased text contains \<open>requirement\<close> sets the section to \<open>req\<close> and is skipped by
  \<open>continue\<close>; any other line is appended to the list of the current section.
\<close>

datatype sect = Desc | Req

definition is_separator :: "ustr \<Rightarrow> bool" where
  "is_separator line = contains (ustr ''requirement'') (py_lower line)"

fun split_loop :: "sect \<Rightarrow> ustr list \<Rightarrow> ustr list \<Rightarrow> ustr list \<Rightarrow> ustr list \<times> ustr list" where
  "split_loop sec description_lines requirements_lines [] =
     (description_lines, requirements_lines)"
| "split_loop sec description_lines requirements_lines (line # rest) =
     (if is_separator line then split_loop Req description_lines requirements_lines rest
      else if sec = Desc then split_loop sec (description_lines @ [line]) requirements_lines rest
      else split_loop sec description_lines (requirements_lines @ [line]) rest)"

definition split_sections :: "ustr list \<Rightarrow> ustr list \<times> ustr list" where
  "split_sections cleaned_lines = split_loop Desc [] [] cleaned_lines"

text \<open>
  The split as the specification words it: the lines before the first separator line, and
  all the lines after that line.
\<close>

definition spec_split_sections :: "ustr list \<Rightarrow> ustr list \<times> ustr list" where
  "spec_split_sections ls =
     (takeWhile (\<lambda>l. \<not> is_separator l) ls, drop 1 (dropWhile (\<lambda>l. \<not> is_separator l) ls))"

section \<open>The slug of a title\<close>

text \<open>Line 130: \<open>slug = '-'.join(title.lower().split())[:50]\<close>\<close>

definition slug_of :: "ustr \<Rightarrow> ustr" where
  "slug_of title = take 50 (py_join (ustr ''-'') (py_split_ws (py_lower title)))"

section \<open>Regular expressions: \<open>re.search\<close> and \<open>re.sub\<close> on the patterns of the source\<close>

text \<open>
  The three patterns of the source are sequences of a character class, a class under \<open>*\<close>
  and a class under \<open>+\<close>.  \<open>rx_match\<close> is the backtracking matcher of \<open>re\<close> at one position:
  a repetition is greedy, it first takes the longest run of the class and gives characters
  back one at a time until the rest of the pattern matches.  The result is the text left
  after the match.
\<close>

datatype rx_item = One "uchar \<Rightarrow> bool" | Many0 "uchar \<Rightarrow> bool" | Many1 "uchar \<Rightarrow> bool"

fun first_some :: "('a \<Rightarrow> 'b option) \<Rightarrow> 'a list \<Rightarrow> 'b option" where
  "first_some f [] = None"
| "first_some f (x # xs) = (case f x of Some y \<Rightarrow> Some y | None \<Rightarrow> first_some f xs)"

fun rx_match :: "rx_item list \<Rightarrow> ustr \<Rightarrow> ustr option" where
  "rx_match [] s = Some s"
| "rx_match (One p # r) s =
     (case s of [] \<Rightarrow> None | c # s' \<Rightarrow> if p c then rx_match r s' else None)"
| "rx_match (Many0 p # r) s =
     first_some (\<lambda>n. rx_match r (drop n s)) (rev [0 ..< Suc (length (takeWhile p s))])"
| "rx_match (Many1 p # r) s =
     first_some (\<lambda>n. rx_match r (drop n s)) (rev [1 ..< Suc (length (takeWhile p s))])"

text \<open>
  \<open>re.search\<close>: the start positions are tried from left to right, the first position with a
  match wins.  The result is the start position and \<open>group(0)\<close>.
\<close>

definition rx_at :: "rx_item list \<Rightarrow> ustr \<Rightarrow> nat \<Rightarrow> (nat \<times> ustr) option" where
  "rx_at pat s i =
     (case rx_match pat (drop i s) of
        None \<Rightarrow> None
      | Some rest \<Rightarrow> Some (i, take (length s - i - length rest) (drop i s)))"

definition rx_search :: "rx_item list \<Rightarrow> ustr \<Rightarrow> (nat \<times> ustr) option" where
  "rx_search pat s = first_some (rx_at pat s) [0 ..< Suc (length s)]"

text \<open>Line 33: the pattern \<open>[\w\.-]+@[\w\.-]+\.\w+\<close>\<close>

definition isword_dot_dash :: "uchar \<Rightarrow> bool" where
  "isword_dot_dash c \<longleftrightarrow> isword c \<or> c = 46 \<or> c = 45"

definition email_pattern :: "rx_item list" where
  "email_pattern =
     [Many1 isword_dot_dash, One (\<lambda>c. c = 64), Many1 isword_dot_dash, One (\<lambda>c. c = 46),
      Many1 isword]"

text \<open>Lines 32 to 34: \<open>extract_email\<close>\<close>

definition extract_email :: "ustr \<Rightarrow> ustr" where
  "extract_email text = (case rx_search email_pattern text of Some (i, m) \<Rightarrow> m | None \<Rightarrow> [])"

text \<open>
  An email-shaped string, as the pattern reads: a non-empty local part and a non-empty
  domain of word characters, dots and dashes around one \<open>@\<close>, then a dot and a non-empty
  run of word characters.
\<close>

definition email_shaped :: "ustr \<Rightarrow> bool" where
  "email_shaped w \<longleftrightarrow>
     (\<exists>l d t. w = l @ [64] @ d @ [46] @ t \<and> l \<noteq> [] \<and> d \<noteq> [] \<and> t \<noteq> [] \<and>
        list_all isword_dot_dash l \<and> list_all isword_dot_dash d \<and> list_all isword t)"

text \<open>
  The strings a pattern matches as a whole, read off the pattern: a class under \<open>+\<close> stands
  for any non-empty block of the class, wherever the block ends.
\<close>

fun rx_lang :: "rx_item list \<Rightarrow> ustr \<Rightarrow> bool" where
  "rx_lang [] w = (w = [])"
| "rx_lang (One p # r) w = (\<exists>c v. w = c # v \<and> p c \<and> rx_lang r v)"
| "rx_lang (Many0 p # r) w = (\<exists>u v. w = u @ v \<and> list_all p u \<and> rx_lang r v)"
| "rx_lang (Many1 p # r) w = (\<exists>u v. w = u @ v \<and> u \<noteq> [] \<and> list_all p u \<and> rx_lang r v)"

text \<open>\<open>w\<close> stands in \<open>s\<close> at position \<open>i\<close>.\<close>

definition occurs_at :: "ustr \<Rightarrow> nat \<Rightarrow> ustr \<Rightarrow> bool" where
  "occurs_at w i s \<longleftrightarrow> take (length w) (drop i s) = w \<and> i + length w \<le> length s"

text \<open>
  Line 46: \<open>re.sub(r'^\s*[-*...]\s*', '... ', line)\<close>.  The class and the replacement hold the
  three code points U+201A, U+00C4, U+00A2 that stand in the source file.  The pattern is
  anchored at the start of the line and a match is never empty, so at most the match at
  position 0 is replaced.
\<close>

definition bullet :: ustr where
  "bullet = [8218, 196, 162]"

definition bullet_class :: "uchar \<Rightarrow> bool" where
  "bullet_class c \<longleftrightarrow> c = 45 \<or> c = 42 \<or> c = 8218 \<or> c = 196 \<or> c = 162"

definition sub_bullet :: "ustr \<Rightarrow> ustr" where
  "sub_bullet line =
     (case rx_match [Many0 isspace, One bullet_class, Many0 isspace] line of
        None \<Rightarrow> line
      | Some rest \<Rightarrow> bullet @ ustr '' '' @ rest)"

text \<open>
  Line 47: \<open>re.sub(r'\s+', ' ', line)\<close>: every maximal run of whitespace becomes one space.
  The flag says that the previous character was whitespace.
\<close>

fun collapse_ws :: "bool \<Rightarrow> ustr \<Rightarrow> ustr" where
  "collapse_ws in_run [] = []"
| "collapse_ws in_run (c # cs) =
     (if isspace c then (if in_run then collapse_ws True cs else 32 # collapse_ws True cs)
      else c # collapse_ws False cs)"

section \<open>The markup tree\<close>

text \<open>
  A parsed document, as the markup-tree library hands it to the program: text nodes,
  comment nodes and elements with a name, attributes (name and raw value) and children.
  A document or the contents of an element is a list of nodes.  \<open>Text\<close> stands for the
  strings that \<open>get_text\<close> collects (plain text and CDATA sections), \<open>Comment\<close> for the
  strings it leaves out (comments, declarations, the doctype, processing instructions and
  the text of \<open>script\<close>, \<open>style\<close> and \<open>template\<close> elements); \<open>tag.string\<close> sees both.
\<close>

datatype node = Text ustr | Comment ustr | Elem ustr "(ustr \<times> ustr) list" "node list"

type_synonym soup = "node list"

text \<open>Every node of a subtree in document order, each with its ancestors, nearest first.\<close>

fun walk :: "node list \<Rightarrow> node \<Rightarrow> (node list \<times> node) list" where
  "walk anc (Text s) = [(anc, Text s)]"
| "walk anc (Comment s) = [(anc, Comment s)]"
| "walk anc (Elem t a cs) = (anc, Elem t a cs) # concat (map (walk (Elem t a cs # anc)) cs)"

definition walk_all :: "soup \<Rightarrow> (node list \<times> node) list" where
  "walk_all ns = concat (map (walk []) ns)"

definition descendants :: "soup \<Rightarrow> node list" where
  "descendants ns = map snd (walk_all ns)"

fun contents :: "node \<Rightarrow> node list" where
  "contents (Text s) = []"
| "contents (Comment s) = []"
| "contents (Elem t a cs) = cs"

fun tag_is :: "ustr \<Rightarrow> node \<Rightarrow> bool" where
  "tag_is name (Text s) = False"
| "tag_is name (Comment s) = False"
| "tag_is name (Elem t a cs) = (t = name)"

fun attr :: "ustr \<Rightarrow> node \<Rightarrow> ustr option" where
  "attr k (Text s) = None"
| "attr k (Comment s) = None"
| "attr k (Elem t a cs) = map_of a k"

text \<open>The \<open>class\<close> attribute is a list of names separated by whitespace.\<close>

definition has_class :: "ustr \<Rightarrow> node \<Rightarrow> bool" where
  "has_class c n = (case attr (ustr ''class'') n of None \<Rightarrow> False | Some v \<Rightarrow> c \<in> set (py_split_ws v))"

text \<open>\<open>tag.find(...)\<close>: the first matching node below the tag; \<open>tag.find_all(...)\<close>: all of them.\<close>

definition find_tag :: "(node \<Rightarrow> bool) \<Rightarrow> node list \<Rightarrow> node option" where
  "find_tag p ns = List.find p (descendants ns)"

definition find_all :: "(node \<Rightarrow> bool) \<Rightarrow> node list \<Rightarrow> node list" where
  "find_all p ns = filter p (descendants ns)"

text \<open>
  \<open>soup.find(...)\<close> together with the nodes that follow the found node in document order
  (its own descendants first): the nodes \<open>found.find_next(...)\<close> searches.
\<close>

definition find_with_next :: "(node \<Rightarrow> bool) \<Rightarrow> soup \<Rightarrow> (node \<times> node list) option" where
  "find_with_next p ns =
     (case dropWhile (\<lambda>n. \<not> p n) (descendants ns) of [] \<Rightarrow> None | x # following \<Rightarrow> Some (x, following))"

text \<open>
  \<open>tag.get_text(sep, strip=True)\<close>: the text nodes below the tag, each stripped, the empty
  ones dropped, joined by \<open>sep\<close>.
\<close>

fun node_text :: "node \<Rightarrow> ustr list" where
  "node_text (Text s) = [s]"
| "node_text (Comment s) = []"
| "node_text (Elem t a cs) = []"

definition get_text :: "ustr \<Rightarrow> node \<Rightarrow> ustr" where
  "get_text sep tag =
     py_join sep (filter (\<lambda>t. t \<noteq> []) (map py_strip (concat (map node_text (descendants (contents tag))))))"

text \<open>
  \<open>tag.string\<close>: the string of a tag whose only child is a text or comment node, or the
  \<open>string\<close> of its only child.
\<close>

fun tag_string :: "node \<Rightarrow> ustr option" where
  "tag_string (Text s) = Some s"
| "tag_string (Comment s) = Some s"
| "tag_string (Elem t a [c]) = tag_string c"
| "tag_string (Elem t a cs) = None"

text \<open>
  \<open>soup.select(...)\<close> for compound selectors joined by the descendant combinator.
  \<open>chain_ok\<close> takes the compounds but the last, innermost first, and the ancestors of an
  element, nearest first: some ancestor matches the first compound, and above it the rest of
  the chain is matched in the same way.
\<close>

fun chain_ok :: "(node \<Rightarrow> bool) list \<Rightarrow> node list \<Rightarrow> bool" where
  "chain_ok [] anc = True"
| "chain_ok (p # ps) [] = False"
| "chain_ok (p # ps) (a # anc) = ((p a \<and> chain_ok ps anc) \<or> chain_ok (p # ps) anc)"

definition select :: "(node \<Rightarrow> bool) list \<Rightarrow> soup \<Rightarrow> node list" where
  "select chain ns =
     (case rev chain of
        [] \<Rightarrow> []
      | p # outer \<Rightarrow> map snd (filter (\<lambda>(anc, n). p n \<and> chain_ok outer anc) (walk_all ns)))"

definition select_one :: "(node \<Rightarrow> bool) list \<Rightarrow> soup \<Rightarrow> node option" where
  "select_one chain ns = (case select chain ns of [] \<Rightarrow> None | x # xs \<Rightarrow> Some x)"

section \<open>Errors\<close>

datatype py_error = AttributeError | IndexError | KeyError | ValueError | BrowserError ustr

section \<open>Content Formatter: \<open>clean_and_format_text\<close>\<close>

text \<open>Lines 29 and 30: \<open>extract_text_safe\<close>.  A tag is always true, only \<open>None\<close> is false.\<close>

definition extract_text_safe :: "node option \<Rightarrow> ustr" where
  "extract_text_safe elem = (case elem of None \<Rightarrow> [] | Some e \<Rightarrow> get_text [] e)"

definition is_p_or_li :: "node \<Rightarrow> bool" where
  "is_p_or_li n \<longleftrightarrow> tag_is (ustr ''p'') n \<or> tag_is (ustr ''li'') n"

text \<open>Lines 38 to 42\<close>

definition raw_lines_of :: "node \<Rightarrow> ustr list" where
  "raw_lines_of block =
     filter (\<lambda>text. text \<noteq> []) (map (get_text (ustr '' '')) (find_all is_p_or_li (contents block)))"

text \<open>Lines 44 to 48\<close>

definition clean_line :: "ustr \<Rightarrow> ustr" where
  "clean_line line = py_strip (collapse_ws False (sub_bullet line))"

text \<open>Lines 62 to 68: a line that starts with the bullet is kept, any other gets it in front.\<close>

definition bulleted :: "ustr \<Rightarrow> ustr" where
  "bulleted l = (if startswith l bullet then l else bullet @ ustr '' '' @ l)"

definition desc_header :: ustr where
  "desc_header = [63743, 252, 236, 249] @ ustr '' **Job Description:**'' @ [10]"

definition req_header :: ustr where
  "req_header = [63743, 252, 236, 229] @ ustr '' **Requirements:**'' @ [10]"

definition format_block :: "ustr \<Rightarrow> ustr list \<Rightarrow> ustr" where
  "format_block header ls = (if ls \<noteq> [] then header @ py_join [10] (map bulleted ls) else [])"

text \<open>Lines 37 to 70\<close>

definition clean_and_format_text :: "node \<Rightarrow> ustr \<times> ustr" where
  "clean_and_format_text block =
     (let cleaned_lines = map clean_line (raw_lines_of block);
          (description_lines, requirements_lines) = split_sections cleaned_lines;
          formatted_desc = format_block desc_header description_lines;
          formatted_req = format_block req_header requirements_lines
      in (py_strip formatted_desc, py_strip formatted_req))"

section \<open>Job Record Extractor: \<open>extract_job_data\<close>\<close>

definition BASE_URL :: ustr where
  "BASE_URL = ustr ''https://www.myjobmag.com''"

definition JOBS_URL :: ustr where
  "JOBS_URL = BASE_URL @ ustr ''/jobs''"

text \<open>
  Lines 74 to 80: title and company from the first \<open>h1\<close>.  \<open>parts[0]\<close> of an empty list
  would raise \<open>IndexError\<close>.
\<close>

definition split_heading :: "ustr \<Rightarrow> py_error + (ustr \<times> ustr)" where
  "split_heading heading =
     (case py_split (ustr '' at '') heading of
        [] \<Rightarrow> Inl IndexError
      | p0 # ps \<Rightarrow> Inr (py_strip p0, (case ps of [] \<Rightarrow> [] | p1 # rest \<Rightarrow> py_strip p1)))"

definition title_company :: "soup \<Rightarrow> py_error + (ustr \<times> ustr)" where
  "title_company soup =
     (case find_tag (tag_is (ustr ''h1'')) soup of
        None \<Rightarrow> Inr ([], [])
      | Some h1 \<Rightarrow> split_heading (get_text (ustr '' '') h1))"

text \<open>Lines 82 to 90: the tag line of the company.\<close>

definition is_about_link :: "node \<Rightarrow> bool" where
  "is_about_link n \<longleftrightarrow>
     tag_is (ustr ''a'') n \<and>
     (case tag_string n of None \<Rightarrow> False | Some s \<Rightarrow> s \<noteq> [] \<and> contains (ustr ''Read more about'') s)"

definition tagline_of :: "soup \<Rightarrow> ustr" where
  "tagline_of soup =
     (case find_tag (\<lambda>n. tag_is (ustr ''div'') n \<and> has_class (ustr ''company-details'') n) soup of
        Some tagline_div \<Rightarrow> extract_text_safe (find_tag (tag_is (ustr ''p'')) (contents tagline_div))
      | None \<Rightarrow>
          (case find_with_next is_about_link soup of
             Some (about_link, following) \<Rightarrow> extract_text_safe (List.find (tag_is (ustr ''p'')) following)
           | None \<Rightarrow> []))"

text \<open>Lines 92 to 110: the key-info list; the first keyword found in a label decides.\<close>

record key_fields =
  kf_location :: ustr
  kf_qualification :: ustr
  kf_experience :: ustr
  kf_job_type :: ustr
  kf_field :: ustr
  kf_salary :: ustr
  kf_job_expires :: ustr

definition no_key_fields :: key_fields where
  "no_key_fields =
     \<lparr>kf_location = [], kf_qualification = [], kf_experience = [], kf_job_type = [],
      kf_field = [], kf_salary = [], kf_job_expires = []\<rparr>"

definition span_of_class :: "ustr \<Rightarrow> node \<Rightarrow> bool" where
  "span_of_class c n \<longleftrightarrow> tag_is (ustr ''span'') n \<and> has_class c n"

definition key_step :: "key_fields \<Rightarrow> node \<Rightarrow> key_fields" where
  "key_step kf li =
     (let key = py_lower (extract_text_safe (find_tag (span_of_class (ustr ''jkey-title'')) (contents li)));
          val = extract_text_safe (find_tag (span_of_class (ustr ''jkey-info'')) (contents li))
      in if contains (ustr ''location'') key then kf\<lparr>kf_location := val\<rparr>
         else if contains (ustr ''qualification'') key then kf\<lparr>kf_qualification := val\<rparr>
         else if contains (ustr ''experience'') key then kf\<lparr>kf_experience := val\<rparr>
         else if contains (ustr ''job type'') key then kf\<lparr>kf_job_type := val\<rparr>
         else if contains (ustr ''field'') key then kf\<lparr>kf_field := val\<rparr>
         else if contains (ustr ''salary'') key then kf\<lparr>kf_salary := val\<rparr>
         else if contains (ustr ''deadline'') key \<or> contains (ustr ''expires'') key
           then kf\<lparr>kf_job_expires := val\<rparr>
         else kf)"

definition key_info_of :: "soup \<Rightarrow> key_fields" where
  "key_info_of soup =
     foldl key_step no_key_fields
       (select [\<lambda>n. tag_is (ustr ''ul'') n \<and> has_class (ustr ''job-key-info'') n, tag_is (ustr ''li'')] soup)"

text \<open>Lines 112 to 115\<close>

definition description_of :: "soup \<Rightarrow> ustr \<times> ustr" where
  "description_of soup =
     (case select_one [\<lambda>n. tag_is (ustr ''div'') n \<and> has_class (ustr ''job-details'') n] soup of
        None \<Rightarrow> ([], [])
      | Some desc_block \<Rightarrow> clean_and_format_text desc_block)"

text \<open>
  Lines 117 to 125: the application contact, email and URL.  \<open>find_next('div')\<close> gives
  \<open>None\<close> when no \<open>div\<close> follows the heading, and the call of \<open>get_text\<close> on it raises
  \<open>AttributeError\<close>.
\<close>

definition is_method_block :: "node \<Rightarrow> bool" where
  "is_method_block n \<longleftrightarrow>
     tag_is (ustr ''h2'') n \<and> attr (ustr ''id'') n = Some (ustr ''application-method'')"

definition has_href :: "node \<Rightarrow> bool" where
  "has_href n \<longleftrightarrow> tag_is (ustr ''a'') n \<and> attr (ustr ''href'') n \<noteq> None"

definition application_contact :: "soup \<Rightarrow> py_error + (ustr \<times> ustr)" where
  "application_contact soup =
     (case find_with_next is_method_block soup of
        None \<Rightarrow> Inr ([], [])
      | Some (method_block, following) \<Rightarrow>
          (case List.find (tag_is (ustr ''div'')) following of
             None \<Rightarrow> Inl AttributeError
           | Some next_div \<Rightarrow>
               (let method_text = get_text (ustr '' '') next_div;
                    application_email = extract_email method_text
                in case find_tag has_href (contents next_div) of
                     None \<Rightarrow> Inr (application_email, [])
                   | Some a_tag \<Rightarrow>
                       (case attr (ustr ''href'') a_tag of
                          None \<Rightarrow> Inl KeyError
                        | Some href \<Rightarrow>
                            Inr (application_email,
                                 if startswith href (ustr ''/'') then BASE_URL @ href else href)))))"

text \<open>Lines 134 to 144: \<open>combined_info\<close>\<close>

definition combined_info_of :: "ustr \<Rightarrow> key_fields \<Rightarrow> ustr \<Rightarrow> ustr \<Rightarrow> ustr" where
  "combined_info_of company kf description requirements =
     py_strip
       ([63743, 252, 232, 162] @ ustr '' **Company:** '' @ company @ [10, 10] @
        [63743, 252, 236, 231] @ ustr '' **Location:** '' @ kf_location kf @ [10, 10] @
        [63743, 252, 233, 236] @ ustr '' **Qualification:** '' @ kf_qualification kf @ [10, 10] @
        [8218, 232, 8805] @ ustr '' **Experience:** '' @ kf_experience kf @ [10, 10] @
        [63743, 252, 237, 186] @ ustr '' **Job Type:** '' @ kf_job_type kf @ [10, 10] @
        [63743, 252, 237, 8734] @ ustr '' **Salary:** '' @ kf_salary kf @ [10, 10] @
        [63743, 252, 238, 168] @ ustr '' **Field:** '' @ kf_field kf @ [10, 10] @
        description @ [10, 10] @
        requirements)"

text \<open>
  Lines 146 to 164: the record, a dictionary in insertion order, as the list of its keys
  and values.
\<close>

type_synonym row = "(ustr \<times> ustr) list"

definition job_record :: "ustr \<Rightarrow> ustr \<Rightarrow> ustr \<Rightarrow> key_fields \<Rightarrow> ustr \<Rightarrow> ustr \<Rightarrow> ustr \<Rightarrow> ustr \<Rightarrow> row" where
  "job_record title company company_tagline kf description requirements application_email application_url =
     [(ustr ''post_title'',
         title @ (if company \<noteq> [] then ustr '' at '' @ company else []) @
           (if kf_location kf \<noteq> [] then ustr '' in '' @ kf_location kf else [])),
      (ustr ''company'', company),
      (ustr ''company_tagline'', company_tagline),
      (ustr ''job_location'', kf_location kf),
      (ustr ''job_type'', kf_job_type kf),
      (ustr ''job_salary'', kf_salary kf),
      (ustr ''job_expires'', kf_job_expires kf),
      (ustr ''job_category'', kf_field kf),
      (ustr ''required_qualifications'', kf_qualification kf),
      (ustr ''skills_required'', []),
      (ustr ''application_url'', application_url),
      (ustr ''application_email'', application_email),
      (ustr ''slug'', slug_of title),
      (ustr ''post_category'', ustr ''job''),
      (ustr ''post_tag'', kf_field kf),
      (ustr ''subcategory'', kf_field kf),
      (ustr ''post_content'', combined_info_of company kf description requirements)]"

text \<open>The keys of the record, in the order of lines 147 to 163.\<close>

definition record_keys :: "ustr list" where
  "record_keys =
     [ustr ''post_title'', ustr ''company'', ustr ''company_tagline'', ustr ''job_location'',
      ustr ''job_type'', ustr ''job_salary'', ustr ''job_expires'', ustr ''job_category'',
      ustr ''required_qualifications'', ustr ''skills_required'', ustr ''application_url'',
      ustr ''application_email'', ustr ''slug'', ustr ''post_category'', ustr ''post_tag'',
      ustr ''subcategory'', ustr ''post_content'']"

text \<open>
  Lines 73 to 164.  The result is an error when a statement raises, \<open>None\<close> at the
  \<open>return None\<close> of line 128, and the record otherwise.
\<close>

definition extract_job_data :: "soup \<Rightarrow> py_error + row option" where
  "extract_job_data soup =
     (case title_company soup of
        Inl e \<Rightarrow> Inl e
      | Inr (title, company) \<Rightarrow>
          (let company_tagline = tagline_of soup;
               kf = key_info_of soup;
               (description, requirements) = description_of soup
           in case application_contact soup of
                Inl e \<Rightarrow> Inl e
              | Inr (application_email, application_url) \<Rightarrow>
                  if application_email = [] \<and> application_url = [] then Inr None
                  else Inr (Some (job_record title company company_tagline kf description
                                    requirements application_email application_url))))"

text \<open>The split of the heading as the specification words it: one split, at the first \<open>at\<close>.\<close>

definition spec_split_heading :: "ustr \<Rightarrow> ustr \<times> ustr" where
  "spec_split_heading heading =
     (case cut (ustr '' at '') heading of
        None \<Rightarrow> (heading, [])
      | Some (before, remainder) \<Rightarrow> (before, py_strip remainder))"

section \<open>Link Collector: \<open>get_job_links\<close>\<close>

text \<open>
  Lines 168 to 172: the three selectors, \<open>div.mag-b h2 a[href^="/job/"]\<close>,
  \<open>div.job-listing h2 a[href^="/job/"]\<close> and \<open>a[href^="/job/"]\<close>.
\<close>

definition job_anchor :: "node \<Rightarrow> bool" where
  "job_anchor n \<longleftrightarrow>
     tag_is (ustr ''a'') n \<and>
     (case attr (ustr ''href'') n of None \<Rightarrow> False | Some h \<Rightarrow> startswith h (ustr ''/job/''))"

definition div_of_class :: "ustr \<Rightarrow> node \<Rightarrow> bool" where
  "div_of_class c n \<longleftrightarrow> tag_is (ustr ''div'') n \<and> has_class c n"

definition selectors :: "(node \<Rightarrow> bool) list list" where
  "selectors =
     [[div_of_class (ustr ''mag-b''), tag_is (ustr ''h2''), job_anchor],
      [div_of_class (ustr ''job-listing''), tag_is (ustr ''h2''), job_anchor],
      [job_anchor]]"

text \<open>\<open>[a['href'] for a in tags]\<close>: \<open>a['href']\<close> raises \<open>KeyError\<close> on a tag without the attribute.\<close>

fun hrefs :: "node list \<Rightarrow> py_error + ustr list" where
  "hrefs [] = Inr []"
| "hrefs (a # tags) =
     (case attr (ustr ''href'') a of
        None \<Rightarrow> Inl KeyError
      | Some h \<Rightarrow> (case hrefs tags of Inl e \<Rightarrow> Inl e | Inr hs \<Rightarrow> Inr (h # hs)))"

text \<open>Line 179: every \<open>a\<close> with an \<open>href\<close> that contains \<open>/job/\<close>.\<close>

definition fallback_anchor :: "node \<Rightarrow> bool" where
  "fallback_anchor n \<longleftrightarrow>
     has_href n \<and> (case attr (ustr ''href'') n of None \<Rightarrow> False | Some h \<Rightarrow> contains (ustr ''/job/'') h)"

text \<open>Lines 173 to 179: the loop over the selectors, then the fallback.\<close>

fun try_selectors :: "(node \<Rightarrow> bool) list list \<Rightarrow> soup \<Rightarrow> py_error + ustr list" where
  "try_selectors [] soup = hrefs (find_all fallback_anchor soup)"
| "try_selectors (selector # rest) soup =
     (case hrefs (select selector soup) of
        Inl e \<Rightarrow> Inl e
      | Inr job_links \<Rightarrow> if job_links \<noteq> [] then Inr job_links else try_selectors rest soup)"

definition get_job_links :: "soup \<Rightarrow> py_error + ustr list" where
  "get_job_links soup = try_selectors selectors soup"

section \<open>Crawl Orchestrator: \<open>scrape_job\<close> and \<open>main\<close>\<close>

text \<open>
  The browser is a state of any type \<open>'b\<close> and a function \<open>nav\<close> that stands for the three
  statements \<open>driver.get(url)\<close>, the wait for the body and the parse of the page source: it
  gives the parsed page or the exception raised, and the next browser state.  The run keeps
  the URLs it navigated to, whether the session was released, and the files it wrote, each
  with its path, header and rows.  Messages on the console, the pause between two pages and
  the wait for the Enter key leave no trace in this state.
\<close>

type_synonym 'b navigate = "'b \<Rightarrow> ustr \<Rightarrow> (py_error + soup) \<times> 'b"

record 'b run =
  browser :: 'b
  visited :: "ustr list"
  released :: bool
  files :: "(ustr \<times> ustr list \<times> ustr list list) list"

definition load_page :: "'b navigate \<Rightarrow> 'b run \<Rightarrow> ustr \<Rightarrow> (py_error + soup) \<times> 'b run" where
  "load_page nav st url =
     (case nav (browser st) url of
        (res, b') \<Rightarrow> (res, st\<lparr>browser := b', visited := visited st @ [url]\<rparr>))"

text \<open>Lines 182 to 191: every exception of the page load and of the extraction is caught.\<close>

definition scrape_job :: "'b navigate \<Rightarrow> 'b run \<Rightarrow> ustr \<Rightarrow> row option \<times> 'b run" where
  "scrape_job nav st job_url =
     (case load_page nav st job_url of
        (Inl e, st') \<Rightarrow> (None, st')
      | (Inr job_soup, st') \<Rightarrow>
          (case extract_job_data job_soup of Inl e \<Rightarrow> (None, st') | Inr r \<Rightarrow> (r, st')))"

text \<open>Line 209: a link that starts with \<open>/\<close> is resolved against the base URL.\<close>

definition job_url_of :: "ustr \<Rightarrow> ustr" where
  "job_url_of link = (if startswith link (ustr ''/'') then BASE_URL @ link else link)"

text \<open>Lines 208 to 214: the loop body; a row is kept when it is a non-empty dictionary.\<close>

fun scrape_links :: "'b navigate \<Rightarrow> ustr list \<Rightarrow> row list \<Rightarrow> 'b run \<Rightarrow> row list \<times> 'b run" where
  "scrape_links nav [] data_rows st = (data_rows, st)"
| "scrape_links nav (link # rest) data_rows st =
     (let job_url = job_url_of link
      in case scrape_job nav st job_url of
           (row, st') \<Rightarrow>
             scrape_links nav rest
               (case row of None \<Rightarrow> data_rows
                | Some r \<Rightarrow> if r \<noteq> [] then data_rows @ [r] else data_rows) st')"

text \<open>
  Lines 223 to 226: \<open>csv.DictWriter\<close> with the keys of the first row as field names.  A row
  with a key that is not a field name raises \<open>ValueError\<close>; a field name missing from a row
  gives the empty string.  \<open>rows_values\<close> gives the rows written and the error that
  stopped the writer, if any.
\<close>

definition row_values :: "ustr list \<Rightarrow> row \<Rightarrow> py_error + ustr list" where
  "row_values fieldnames r =
     (if \<exists>k \<in> set (map fst r). k \<notin> set fieldnames then Inl ValueError
      else Inr (map (\<lambda>k. case map_of r k of None \<Rightarrow> [] | Some v \<Rightarrow> v) fieldnames))"

fun rows_values :: "ustr list \<Rightarrow> row list \<Rightarrow> ustr list list \<times> py_error option" where
  "rows_values fieldnames [] = ([], None)"
| "rows_values fieldnames (r # rs) =
     (case row_values fieldnames r of
        Inl e \<Rightarrow> ([], Some e)
      | Inr vs \<Rightarrow> (case rows_values fieldnames rs of (vss, err) \<Rightarrow> (vs # vss, err)))"

text \<open>\<open>os.path.join\<close> of two parts, with \<open>/\<close> as the separator.\<close>

definition path_join :: "ustr \<Rightarrow> ustr \<Rightarrow> ustr" where
  "path_join a b =
     (if startswith b (ustr ''/'') then b
      else if a = [] \<or> suffix (ustr ''/'') a then a @ b
      else a @ ustr ''/'' @ b)"

datatype outcome = Raised py_error | No_links | Done "row list"

text \<open>
  Lines 193 to 232.  \<open>home\<close> is the expanded home directory and \<open>timestamp\<close> the formatted
  time of the run.
\<close>

definition main :: "'b navigate \<Rightarrow> 'b \<Rightarrow> ustr \<Rightarrow> ustr \<Rightarrow> outcome \<times> 'b run" where
  "main nav driver home timestamp =
     (let st0 = \<lparr>browser = driver, visited = [], released = False, files = []\<rparr>
      in case load_page nav st0 JOBS_URL of
           (Inl e, st1) \<Rightarrow> (Raised e, st1)
         | (Inr soup, st1) \<Rightarrow>
             (case get_job_links soup of
                Inl e \<Rightarrow> (Raised e, st1)
              | Inr job_links \<Rightarrow>
                  if job_links = [] then (No_links, st1\<lparr>released := True\<rparr>)
                  else
                    (case scrape_links nav (take 10 job_links) [] st1 of
                       (data_rows, st2) \<Rightarrow>
                         (let st3 = st2\<lparr>released := True\<rparr>
                          in case data_rows of
                               [] \<Rightarrow> (Done data_rows, st3)
                             | first_row # others \<Rightarrow>
                                 (let desktop = path_join home (ustr ''Desktop'');
                                      file_path = path_join desktop
                                        (ustr ''myjobmag_jobs_'' @ timestamp @ ustr ''.csv'');
                                      fieldnames = map fst first_row
                                  in case rows_values fieldnames data_rows of
                                       (vss, Some e) \<Rightarrow>
                                         (Raised e, st3\<lparr>files := files st3 @ [(file_path, fieldnames, vss)]\<rparr>)
                                     | (vss, None) \<Rightarrow>
                                         (Done data_rows,
                                          st3\<lparr>files := files st3 @ [(file_path, fieldnames, vss)]\<rparr>))))))"

section \<open>What the visited pages yield\<close>

text \<open>
  What one visited page yields, read off the browser and \<open>extract_job_data\<close> alone: the
  record that \<open>extract_job_data\<close> returns for the page the browser shows at the URL, and no
  record when the page does not load, when the extraction raises or when it returns
  \<open>None\<close>.  \<open>page_yields\<close> visits the URLs one after the other, \<open>records_of\<close> keeps the
  records.
\<close>

definition page_yield :: "'b navigate \<Rightarrow> 'b \<Rightarrow> ustr \<Rightarrow> row option \<times> 'b" where
  "page_yield nav b url =
     (case nav b url of
        (Inl e, b') \<Rightarrow> (None, b')
      | (Inr job_soup, b') \<Rightarrow>
          (case extract_job_data job_soup of
             Inl e \<Rightarrow> (None, b')
           | Inr None \<Rightarrow> (None, b')
           | Inr (Some r) \<Rightarrow> (Some r, b')))"

fun page_yields :: "'b navigate \<Rightarrow> 'b \<Rightarrow> ustr list \<Rightarrow> row option list" where
  "page_yields nav b [] = []"
| "page_yields nav b (url # urls) =
     (case page_yield nav b url of (y, b') \<Rightarrow> y # page_yields nav b' urls)"

fun records_of :: "row option list \<Rightarrow> row list" where
  "records_of [] = []"
| "records_of (None # ys) = records_of ys"
| "records_of (Some r # ys) = r # records_of ys"

section \<open>Example pages\<close>

definition page_no_contact :: soup where
  "page_no_contact = [Elem (ustr ''h1'') [] [Text (ustr ''Developer'')]]"

definition page_with_email :: soup where
  "page_with_email =
     [Elem (ustr ''h1'') [] [Text (ustr ''Developer at Acme'')],
      Elem (ustr ''h2'') [(ustr ''id'', ustr ''application-method'')] [Text (ustr ''Method of Application'')],
      Elem (ustr ''div'') [] [Text (ustr ''Send your CV to hr@acme.com'')]]"

definition page_no_div :: soup where
  "page_no_div =
     [Elem (ustr ''h2'') [(ustr ''id'', ustr ''application-method'')] [Text (ustr ''Method of Application'')]]"

definition page_two_at :: soup where
  "page_two_at = [Elem (ustr ''h1'') [] [Text (ustr ''Engineer at Foo at Bar'')]]"

text \<open>
  A listing page where the first selector finds one link and the third finds two; a
  listing page of twelve links; a browser that shows that page and, at any other URL, the
  page with an email; a browser that shows that page at every URL, so that no visited page
  has an application contact; a browser that shows an empty page.
\<close>

definition listing_mixed :: soup where
  "listing_mixed =
     [Elem (ustr ''div'') [(ustr ''class'', ustr ''mag-b'')]
        [Elem (ustr ''h2'') [] [Elem (ustr ''a'') [(ustr ''href'', ustr ''/job/one'')] [Text (ustr ''One'')]]],
      Elem (ustr ''a'') [(ustr ''href'', ustr ''/job/two'')] [Text (ustr ''Two'')]]"

definition job_link :: "string \<Rightarrow> node" where
  "job_link name = Elem (ustr ''a'') [(ustr ''href'', ustr ''/job/'' @ ustr name)] [Text (ustr name)]"

definition listing_twelve :: soup where
  "listing_twelve =
     map job_link [''a'', ''b'', ''c'', ''d'', ''e'', ''f'', ''g'', ''h'', ''i'', ''j'', ''k'', ''l'']"

definition nav_twelve :: "unit navigate" where
  "nav_twelve b url = (if url = JOBS_URL then Inr listing_twelve else Inr page_with_email, b)"

definition nav_no_record :: "unit navigate" where
  "nav_no_record b url = (Inr listing_twelve, b)"

definition nav_no_links :: "unit navigate" where
  "nav_no_links b url = (Inr [], b)"

section \<open>Evaluation of the text functions on literals\<close>

lemmas text_eval = ustr_def py_lower_def lower_cp_def isupper_cp_def latin_upper_def isspace_def
  isword_def
  is_separator_def py_strip_def startswith_def py_split_ws_def

section \<open>Properties of the section split\<close>

lemma split_loop_Req:
  "split_loop Req d r ls = (d, r @ filter (\<lambda>l. \<not> is_separator l) ls)"
  by (induction ls arbitrary: r) simp_all

lemma split_loop_Desc:
  "split_loop Desc d r ls =
     (d @ takeWhile (\<lambda>l. \<not> is_separator l) ls,
      r @ filter (\<lambda>l. \<not> is_separator l) (dropWhile (\<lambda>l. \<not> is_separator l) ls))"
  by (induction ls arbitrary: d) (simp_all add: split_loop_Req)

lemma split_sections_eq:
  "split_sections ls =
     (takeWhile (\<lambda>l. \<not> is_separator l) ls,
      filter (\<lambda>l. \<not> is_separator l) (dropWhile (\<lambda>l. \<not> is_separator l) ls))"
  by (simp add: split_sections_def split_loop_Desc)

text \<open>
  Claim C2, as the code has it.  The lines before the first line that contains
  \<open>requirement\<close> (in any case) are the description, in order.  The requirements are the lines
  after that line that do not contain \<open>requirement\<close> themselves: every such line is left
  out of both outputs, not only the first.  When no line contains \<open>requirement\<close>,
  all lines are the description and the requirements are empty.
\<close>

theorem split_sections_drops_every_separator:
  "split_sections ls =
     (takeWhile (\<lambda>l. \<not> is_separator l) ls,
      filter (\<lambda>l. \<not> is_separator l) (drop 1 (dropWhile (\<lambda>l. \<not> is_separator l) ls)))
   \<and> ((\<forall>l \<in> set ls. \<not> is_separator l) \<longrightarrow> split_sections ls = (ls, []))
   \<and> (\<forall>l \<in> set (fst (split_sections ls)) \<union> set (snd (split_sections ls)). \<not> is_separator l)"
proof (intro conjI impI)
  let ?P = "\<lambda>l. \<not> is_separator l"
  have "filter ?P (dropWhile ?P ls) = filter ?P (drop 1 (dropWhile ?P ls))"
  proof (cases "dropWhile ?P ls")
    case Nil
    show ?thesis unfolding Nil by simp
  next
    case (Cons x xs)
    then have "\<not> ?P x" by (metis hd_dropWhile list.sel(1) list.distinct(1))
    then show ?thesis unfolding Cons by simp
  qed
  then show "split_sections ls = (takeWhile ?P ls, filter ?P (drop 1 (dropWhile ?P ls)))"
    by (simp add: split_sections_eq)
next
  assume a: "\<forall>l \<in> set ls. \<not> is_separator l"
  then have "takeWhile (\<lambda>l. \<not> is_separator l) ls = ls"
    by (simp add: takeWhile_eq_all_conv)
  moreover from a have "dropWhile (\<lambda>l. \<not> is_separator l) ls = []"
    by simp
  ultimately show "split_sections ls = (ls, [])"
    by (simp only: split_sections_eq filter.simps)
next
  show "\<forall>l \<in> set (fst (split_sections ls)) \<union> set (snd (split_sections ls)). \<not> is_separator l"
    by (auto simp: split_sections_eq dest: set_takeWhileD)
qed

theorem split_sections_drops_every_separator_witness:
  "split_sections [ustr ''Intro'', ustr ''Duties''] = ([ustr ''Intro'', ustr ''Duties''], [])
   \<and> \<not> is_separator (ustr ''Intro'')"
proof -
  have n: "\<forall>l \<in> set [ustr ''Intro'', ustr ''Duties'']. \<not> is_separator l"
    by (simp add: text_eval)
  have e: "split_sections [ustr ''Intro'', ustr ''Duties''] = ([ustr ''Intro'', ustr ''Duties''], [])"
    using split_sections_drops_every_separator [of "[ustr ''Intro'', ustr ''Duties'']"] n by blast
  have "\<forall>l \<in> set (fst (split_sections [ustr ''Intro'', ustr ''Duties'']))
            \<union> set (snd (split_sections [ustr ''Intro'', ustr ''Duties''])). \<not> is_separator l"
    using split_sections_drops_every_separator [of "[ustr ''Intro'', ustr ''Duties'']"] by blast
  then have "\<not> is_separator (ustr ''Intro'')" by (simp add: e)
  with e show ?thesis by simp
qed

text \<open>
  Claim C2 as it is stated fails on a list with a second line that contains
  \<open>requirement\<close>: the specification sends the line \<open>Other requirements\<close> to the
  requirements, the code leaves it out.
\<close>

theorem split_sections_second_separator_counterexample:
  "split_sections
     [ustr ''Intro'', ustr ''Requirements:'', ustr ''BSc'', ustr ''Other requirements'', ustr ''Python'']
     = ([ustr ''Intro''], [ustr ''BSc'', ustr ''Python''])
   \<and> spec_split_sections
     [ustr ''Intro'', ustr ''Requirements:'', ustr ''BSc'', ustr ''Other requirements'', ustr ''Python'']
     = ([ustr ''Intro''], [ustr ''BSc'', ustr ''Other requirements'', ustr ''Python''])
   \<and> split_sections
     [ustr ''Intro'', ustr ''Requirements:'', ustr ''BSc'', ustr ''Other requirements'', ustr ''Python'']
     \<noteq> spec_split_sections
     [ustr ''Intro'', ustr ''Requirements:'', ustr ''BSc'', ustr ''Other requirements'', ustr ''Python'']"
  by (simp add: split_sections_def spec_split_sections_def text_eval)

section \<open>Properties of the slug\<close>

lemma lower_cp_latin:
  "c \<le> 255 \<Longrightarrow> d \<in> set (lower_cp c) \<Longrightarrow> d \<le> 255 \<and> \<not> isupper_cp d"
  by (auto simp: lower_cp_def isupper_cp_def latin_upper_def split: if_splits)

lemma py_lower_latin:
  assumes "\<forall>c \<in> set s. c \<le> 255" "d \<in> set (py_lower s)"
  shows "\<not> isupper_cp d"
proof -
  from assms(2) obtain c where "c \<in> set s" "d \<in> set (lower_cp c)"
    by (auto simp: py_lower_def)
  with assms(1) lower_cp_latin [of c d] show ?thesis by simp
qed

lemma words_acc_nospace:
  "\<forall>c \<in> set w. \<not> isspace c \<Longrightarrow> x \<in> set (words_acc w s) \<Longrightarrow> c \<in> set x \<Longrightarrow> \<not> isspace c"
proof (induction s arbitrary: w)
  case Nil
  then show ?case by (auto split: if_splits)
next
  case (Cons a s)
  show ?case
  proof (cases "isspace a")
    case True
    have e: "\<forall>c \<in> set ([]::ustr). \<not> isspace c" by simp
    from True Cons.prems(2) have "x = rev w \<or> x \<in> set (words_acc [] s)"
      by (auto split: if_splits)
    then show ?thesis
    proof
      assume "x = rev w"
      with Cons.prems(1,3) show ?thesis by simp
    next
      assume "x \<in> set (words_acc [] s)"
      from Cons.IH [OF e this Cons.prems(3)] show ?thesis .
    qed
  next
    case False
    with Cons.prems(1) have w: "\<forall>c \<in> set (a # w). \<not> isspace c" by simp
    from False Cons.prems(2) have "x \<in> set (words_acc (a # w) s)" by simp
    from Cons.IH [OF w this Cons.prems(3)] show ?thesis .
  qed
qed

lemma words_acc_subset:
  "x \<in> set (words_acc w s) \<Longrightarrow> set x \<subseteq> set w \<union> set s"
proof (induction s arbitrary: w)
  case Nil
  then show ?case by (auto split: if_splits)
next
  case (Cons a s)
  show ?case
  proof (cases "isspace a")
    case True
    with Cons.prems have "x = rev w \<or> x \<in> set (words_acc [] s)"
      by (auto split: if_splits)
    then show ?thesis
    proof
      assume "x = rev w"
      then show ?thesis by auto
    next
      assume "x \<in> set (words_acc [] s)"
      from Cons.IH [OF this] show ?thesis by auto
    qed
  next
    case False
    with Cons.prems have "x \<in> set (words_acc (a # w) s)" by simp
    from Cons.IH [OF this] show ?thesis by auto
  qed
qed

lemma words_acc_nonempty:
  "x \<in> set (words_acc w s) \<Longrightarrow> x \<noteq> []"
proof (induction s arbitrary: w)
  case Nil
  then show ?case by (auto split: if_splits)
next
  case (Cons a s)
  show ?case
  proof (cases "isspace a")
    case True
    with Cons.prems have "(x = rev w \<and> w \<noteq> []) \<or> x \<in> set (words_acc [] s)"
      by (auto split: if_splits)
    then show ?thesis using Cons.IH by auto
  next
    case False
    with Cons.prems have "x \<in> set (words_acc (a # w) s)" by simp
    from Cons.IH [OF this] show ?thesis .
  qed
qed

lemma py_join_all:
  "\<forall>x \<in> set xs. \<forall>c \<in> set x. P c \<Longrightarrow> \<forall>c \<in> set sep. P c \<Longrightarrow> \<forall>c \<in> set (py_join sep xs). P c"
  by (induction sep xs rule: py_join.induct) auto

lemma slug_from_lower:
  assumes "c \<in> set (slug_of title)"
  shows "c = 45 \<or> c \<in> set (py_lower title)"
proof -
  let ?ws = "py_split_ws (py_lower title)"
  have w: "\<forall>x \<in> set ?ws. \<forall>c \<in> set x. c = 45 \<or> c \<in> set (py_lower title)"
  proof (intro ballI)
    fix x c assume "x \<in> set ?ws" "c \<in> set x"
    then have "c \<in> set (py_lower title)"
      unfolding py_split_ws_def using words_acc_subset by fastforce
    then show "c = 45 \<or> c \<in> set (py_lower title)" by simp
  qed
  have sep: "\<forall>c \<in> set (ustr ''-''). c = 45 \<or> c \<in> set (py_lower title)"
    by (simp add: ustr_def)
  have "\<forall>c \<in> set (py_join (ustr ''-'') ?ws). c = 45 \<or> c \<in> set (py_lower title)"
    by (rule py_join_all [OF w sep])
  moreover have "c \<in> set (py_join (ustr ''-'') ?ws)"
    using assms unfolding slug_of_def by (rule in_set_takeD)
  ultimately show ?thesis by blast
qed

lemma slug_nospace:
  assumes "c \<in> set (slug_of title)"
  shows "\<not> isspace c"
proof -
  let ?ws = "py_split_ws (py_lower title)"
  have ns: "\<forall>x \<in> set ?ws. \<forall>c \<in> set x. \<not> isspace c"
    unfolding py_split_ws_def using words_acc_nospace [of "[]"] by simp
  have sep: "\<forall>c \<in> set (ustr ''-''). \<not> isspace c"
    by (simp add: ustr_def isspace_def)
  have "\<forall>c \<in> set (py_join (ustr ''-'') ?ws). \<not> isspace c"
    by (rule py_join_all [OF ns sep])
  moreover have "c \<in> set (py_join (ustr ''-'') ?ws)"
    using assms unfolding slug_of_def by (rule in_set_takeD)
  ultimately show ?thesis by blast
qed

lemma slug_latin:
  assumes "\<forall>c \<in> set title. c \<le> 255" "c \<in> set (slug_of title)"
  shows "\<not> isupper_cp c"
proof -
  from slug_from_lower [OF assms(2)] show ?thesis
  proof
    assume "c = 45"
    then show ?thesis by (simp add: isupper_cp_def latin_upper_def)
  next
    assume "c \<in> set (py_lower title)"
    with assms(1) show ?thesis by (rule py_lower_latin)
  qed
qed

text \<open>
  Claim C9, as the code has it.  The slug of any title has at most 50 characters, none of
  them a whitespace character, and it is the first 50 characters of the lower-cased
  title's whitespace-separated words joined by hyphens, so each of its characters is a
  hyphen or a character of the lower-cased title.  When every character of the title lies
  in U+0000 to U+00FF, the slug has no uppercase letter.  An uppercase letter that
  \<open>str.lower\<close> leaves as it is stays in the slug.
\<close>

theorem slug_short_hyphenated_lowered:
  "length (slug_of title) \<le> 50
   \<and> (\<forall>c \<in> set (slug_of title). \<not> isspace c \<and> (c = 45 \<or> c \<in> set (py_lower title)))
   \<and> slug_of title = take 50 (py_join (ustr ''-'') (py_split_ws (py_lower title)))
   \<and> (\<forall>w \<in> set (py_split_ws (py_lower title)). w \<noteq> [] \<and> (\<forall>c \<in> set w. \<not> isspace c))
   \<and> ((\<forall>c \<in> set title. c \<le> 255) \<longrightarrow> (\<forall>c \<in> set (slug_of title). \<not> isupper_cp c))"
proof (intro conjI ballI impI)
  show "length (slug_of title) \<le> 50" by (simp add: slug_of_def)
next
  fix c assume "c \<in> set (slug_of title)"
  then show "\<not> isspace c" by (rule slug_nospace)
next
  fix c assume "c \<in> set (slug_of title)"
  then show "c = 45 \<or> c \<in> set (py_lower title)" by (rule slug_from_lower)
next
  show "slug_of title = take 50 (py_join (ustr ''-'') (py_split_ws (py_lower title)))"
    by (simp add: slug_of_def)
next
  fix w assume "w \<in> set (py_split_ws (py_lower title))"
  then show "w \<noteq> []" unfolding py_split_ws_def using words_acc_nonempty by blast
next
  fix w c assume "w \<in> set (py_split_ws (py_lower title))" "c \<in> set w"
  then show "\<not> isspace c"
    unfolding py_split_ws_def using words_acc_nospace [of "[]"] by simp
next
  fix c assume "\<forall>c \<in> set title. c \<le> 255" "c \<in> set (slug_of title)"
  then show "\<not> isupper_cp c" by (rule slug_latin)
qed

theorem slug_short_hyphenated_lowered_witness:
  "slug_of (ustr ''Senior  Software Engineer'') = ustr ''senior-software-engineer''
   \<and> \<not> isupper_cp 115 \<and> \<not> isspace 115
   \<and> ustr ''senior'' \<in> set (py_split_ws (py_lower (ustr ''Senior  Software Engineer'')))
   \<and> ustr ''senior'' \<noteq> []"
proof -
  let ?t = "ustr ''Senior  Software Engineer''"
  have s: "slug_of ?t = ustr ''senior-software-engineer''"
    by (simp add: slug_of_def text_eval)
  have m: "115 \<in> set (slug_of ?t)"
    unfolding s by (simp add: ustr_def)
  have w: "ustr ''senior'' \<in> set (py_split_ws (py_lower ?t))"
    by (simp add: text_eval)
  have l: "\<forall>c \<in> set ?t. c \<le> 255"
    by (simp add: ustr_def)
  from slug_short_hyphenated_lowered [of ?t] m w s l show ?thesis by blast
qed

text \<open>
  Claim C9 as it is stated fails on a title with the letter U+1D400, which is uppercase
  and has no lower case: the slug of that letter followed by \<open>BC\<close> keeps it.
\<close>

theorem slug_keeps_uppercase_counterexample:
  "slug_of [119808, 66, 67] = [119808, 98, 99] \<and> isupper_cp 119808"
  by (simp add: slug_of_def text_eval)

section \<open>Properties of the matcher and of \<open>extract_email\<close>\<close>

lemmas rx_eval = extract_email_def rx_search_def rx_at_def email_pattern_def isword_dot_dash_def
  isword_def ustr_def

lemma first_some_None: "first_some f xs = None \<longleftrightarrow> (\<forall>x \<in> set xs. f x = None)"
  by (induction xs) (auto split: option.splits)

lemma first_some_SomeD: "first_some f xs = Some y \<Longrightarrow> \<exists>x \<in> set xs. f x = Some y"
  by (induction xs) (auto split: option.splits)

lemma first_some_first:
  "first_some f xs = Some y \<Longrightarrow>
   \<exists>i < length xs. f (xs ! i) = Some y \<and> (\<forall>j < i. f (xs ! j) = None)"
proof (induction xs)
  case Nil
  then show ?case by simp
next
  case (Cons x xs)
  show ?case
  proof (cases "f x")
    case None
    with Cons.prems have "first_some f xs = Some y" by simp
    from Cons.IH [OF this] obtain i where i: "i < length xs" "f (xs ! i) = Some y"
      "\<forall>j < i. f (xs ! j) = None" by blast
    have "\<forall>j < Suc i. f ((x # xs) ! j) = None"
    proof (intro allI impI)
      fix j assume "j < Suc i"
      then show "f ((x # xs) ! j) = None" using None i(3) by (cases j) auto
    qed
    with i(1,2) show ?thesis by (intro exI [of _ "Suc i"]) simp
  next
    case (Some z)
    with Cons.prems have "f x = Some y" by simp
    then show ?thesis by (intro exI [of _ 0]) simp
  qed
qed

lemma take_le_takeWhile:
  "n \<le> length (takeWhile p s) \<Longrightarrow> list_all p (take n s)"
proof -
  assume n: "n \<le> length (takeWhile p s)"
  have "take n s = take n (takeWhile p s @ dropWhile p s)" by simp
  also have "\<dots> = take n (takeWhile p s)" using n by (simp only: take_append) simp
  finally have "set (take n s) \<subseteq> set (takeWhile p s)" by (simp add: set_take_subset)
  then show ?thesis by (auto simp: list_all_iff dest: set_takeWhileD)
qed

lemma length_le_takeWhile:
  "list_all p u \<Longrightarrow> length u \<le> length (takeWhile p (u @ v))"
  by (induction u) auto

lemma rx_match_sound:
  "rx_match pat s = Some rest \<Longrightarrow> \<exists>w. s = w @ rest \<and> rx_lang pat w"
proof (induction pat arbitrary: s)
  case Nil
  then show ?case by simp
next
  case (Cons it r)
  show ?case
  proof (cases it)
    case (One p)
    with Cons.prems obtain c s' where s: "s = c # s'" "p c" "rx_match r s' = Some rest"
      by (auto split: list.splits if_splits)
    from Cons.IH [OF s(3)] obtain w where "s' = w @ rest" "rx_lang r w" by blast
    with s One show ?thesis by (intro exI [of _ "c # w"]) simp
  next
    case (Many0 p)
    with Cons.prems obtain n where n: "n \<in> set (rev [0 ..< Suc (length (takeWhile p s))])"
      "rx_match r (drop n s) = Some rest"
      by (auto dest!: first_some_SomeD simp del: upt_Suc)
    then have le: "n \<le> length (takeWhile p s)" by auto
    from Cons.IH [OF n(2)] obtain w where w: "drop n s = w @ rest" "rx_lang r w" by blast
    have "s = take n s @ drop n s" by simp
    with w have "s = (take n s @ w) @ rest" by simp
    moreover have "rx_lang (it # r) (take n s @ w)"
      unfolding Many0 rx_lang.simps using w(2) take_le_takeWhile [OF le] by blast
    ultimately show ?thesis by blast
  next
    case (Many1 p)
    with Cons.prems obtain n where n: "n \<in> set (rev [1 ..< Suc (length (takeWhile p s))])"
      "rx_match r (drop n s) = Some rest"
      by (auto dest!: first_some_SomeD simp del: upt_Suc)
    then have le: "n \<le> length (takeWhile p s)" and pos: "1 \<le> n" by auto
    from Cons.IH [OF n(2)] obtain w where w: "drop n s = w @ rest" "rx_lang r w" by blast
    have "s = take n s @ drop n s" by simp
    with w have "s = (take n s @ w) @ rest" by simp
    moreover have "n \<le> length s" using le length_takeWhile_le [of p s] by linarith
    then have "take n s \<noteq> []" using pos by auto
    then have "rx_lang (it # r) (take n s @ w)"
      unfolding Many1 rx_lang.simps using w(2) take_le_takeWhile [OF le] by blast
    ultimately show ?thesis by blast
  qed
qed

lemma rx_match_complete:
  "rx_lang pat w \<Longrightarrow> rx_match pat (w @ rest) \<noteq> None"
proof (induction pat arbitrary: w)
  case Nil
  then show ?case by simp
next
  case (Cons it r)
  show ?case
  proof (cases it)
    case (One p)
    with Cons.prems obtain c v where "w = c # v" "p c" "rx_lang r v" by auto
    with Cons.IH [of v] One show ?thesis by simp
  next
    case (Many0 p)
    with Cons.prems obtain u v where u: "w = u @ v" "list_all p u" "rx_lang r v" by auto
    let ?s = "w @ rest"
    have "length u \<le> length (takeWhile p ?s)"
      using length_le_takeWhile [OF u(2), of "v @ rest"] u(1) by simp
    then have m: "length u \<in> set (rev [0 ..< Suc (length (takeWhile p ?s))])"
      by (simp del: upt_Suc add: less_Suc_eq_le)
    have "rx_match r (drop (length u) ?s) \<noteq> None"
      using Cons.IH [OF u(3)] u(1) by simp
    with m have "first_some (\<lambda>n. rx_match r (drop n ?s)) (rev [0 ..< Suc (length (takeWhile p ?s))]) \<noteq> None"
      unfolding first_some_None by (intro notI) (drule bspec, assumption, simp)
    with Many0 show ?thesis by (simp del: upt_Suc)
  next
    case (Many1 p)
    with Cons.prems obtain u v where u: "w = u @ v" "u \<noteq> []" "list_all p u" "rx_lang r v" by auto
    let ?s = "w @ rest"
    have "length u \<le> length (takeWhile p ?s)"
      using length_le_takeWhile [OF u(3), of "v @ rest"] u(1) by simp
    moreover have "1 \<le> length u" using u(2) by (cases u) auto
    ultimately have m: "length u \<in> set (rev [1 ..< Suc (length (takeWhile p ?s))])"
      by (simp del: upt_Suc add: less_Suc_eq_le)
    have "rx_match r (drop (length u) ?s) \<noteq> None"
      using Cons.IH [OF u(4)] u(1) by simp
    with m have "first_some (\<lambda>n. rx_match r (drop n ?s)) (rev [1 ..< Suc (length (takeWhile p ?s))]) \<noteq> None"
      unfolding first_some_None by (intro notI) (drule bspec, assumption, simp)
    with Many1 show ?thesis by (simp del: upt_Suc)
  qed
qed

lemma email_shaped_lang: "email_shaped w \<longleftrightarrow> rx_lang email_pattern w"
proof
  assume "email_shaped w"
  then obtain l d t where w: "w = l @ [64] @ d @ [46] @ t" "l \<noteq> []" "d \<noteq> []" "t \<noteq> []"
    "list_all isword_dot_dash l" "list_all isword_dot_dash d" "list_all isword t"
    unfolding email_shaped_def by blast
  have 5: "rx_lang [Many1 isword] t"
    unfolding rx_lang.simps using w(4,7) by (intro exI [of _ t] exI [of _ "[]"]) simp
  have 4: "rx_lang [One (\<lambda>c. c = 46), Many1 isword] (46 # t)"
    using 5 by simp
  have 3: "rx_lang [Many1 isword_dot_dash, One (\<lambda>c. c = 46), Many1 isword] (d @ 46 # t)"
    unfolding rx_lang.simps(4) using 4 w(3,6) by blast
  have 2: "rx_lang [One (\<lambda>c. c = 64), Many1 isword_dot_dash, One (\<lambda>c. c = 46), Many1 isword]
             (64 # d @ 46 # t)"
    using 3 by simp
  have "rx_lang email_pattern (l @ 64 # d @ 46 # t)"
    unfolding email_pattern_def rx_lang.simps(4) using 2 w(2,5) by blast
  then show "rx_lang email_pattern w" using w(1) by simp
next
  assume "rx_lang email_pattern w"
  then obtain l v1 where 1: "w = l @ v1" "l \<noteq> []" "list_all isword_dot_dash l"
    "rx_lang [One (\<lambda>c. c = 64), Many1 isword_dot_dash, One (\<lambda>c. c = 46), Many1 isword] v1"
    unfolding email_pattern_def rx_lang.simps(4) by blast
  from 1(4) obtain v2 where 2: "v1 = 64 # v2"
    "rx_lang [Many1 isword_dot_dash, One (\<lambda>c. c = 46), Many1 isword] v2"
    by auto
  from 2(2) obtain d v3 where 3: "v2 = d @ v3" "d \<noteq> []" "list_all isword_dot_dash d"
    "rx_lang [One (\<lambda>c. c = 46), Many1 isword] v3"
    unfolding rx_lang.simps(4) by blast
  from 3(4) obtain t where 4: "v3 = 46 # t" "rx_lang [Many1 isword] t"
    by auto
  from 4(2) have 5: "t \<noteq> []" "list_all isword t" by auto
  have "w = l @ [64] @ d @ [46] @ t" using 1(1) 2(1) 3(1) 4(1) by simp
  with 1(2,3) 3(2,3) 5 show "email_shaped w" unfolding email_shaped_def by blast
qed

lemma rx_at_None: "rx_at pat s j = None \<longleftrightarrow> rx_match pat (drop j s) = None"
  by (simp add: rx_at_def split: option.splits)

lemma rx_at_Some:
  assumes "rx_at pat s j = Some (i, m)"
  shows "i = j \<and> (\<exists>rest. rx_match pat (drop i s) = Some rest \<and> drop i s = m @ rest \<and> rx_lang pat m)"
proof -
  from assms obtain rest where r: "rx_match pat (drop j s) = Some rest" "i = j"
    "m = take (length s - j - length rest) (drop j s)"
    by (auto simp: rx_at_def split: option.splits)
  from rx_match_sound [OF r(1)] obtain w where w: "drop j s = w @ rest" "rx_lang pat w" by blast
  then have "length (drop j s) = length w + length rest" by simp
  then have "length s - j - length rest = length w" by simp
  with r(3) w(1) have "m = w" by simp
  with r w show ?thesis by simp
qed

lemma rx_search_Some:
  assumes "rx_search pat s = Some (i, m)"
  shows "i \<le> length s" 
    and "\<exists>rest. rx_match pat (drop i s) = Some rest \<and> drop i s = m @ rest \<and> rx_lang pat m"
    and "\<forall>j < i. rx_match pat (drop j s) = None"
proof -
  from first_some_first [OF assms [unfolded rx_search_def]]
  obtain k where k: "k < length [0 ..< Suc (length s)]"
    "rx_at pat s ([0 ..< Suc (length s)] ! k) = Some (i, m)"
    "\<forall>j < k. rx_at pat s ([0 ..< Suc (length s)] ! j) = None" by blast
  from k(1) have kl: "k < Suc (length s)" by (simp del: upt_Suc)
  then have nk: "[0 ..< Suc (length s)] ! k = k" by (simp del: upt_Suc)
  from k(2) nk have at: "rx_at pat s k = Some (i, m)" by simp
  from rx_at_Some [OF at] have ik: "i = k" and
    ex: "\<exists>rest. rx_match pat (drop i s) = Some rest \<and> drop i s = m @ rest \<and> rx_lang pat m" by auto
  show "i \<le> length s" using ik kl by simp
  show "\<exists>rest. rx_match pat (drop i s) = Some rest \<and> drop i s = m @ rest \<and> rx_lang pat m" by (rule ex)
  show "\<forall>j < i. rx_match pat (drop j s) = None"
  proof (intro allI impI)
    fix j assume j: "j < i"
    then have "j < Suc (length s)" using ik kl by simp
    then have "[0 ..< Suc (length s)] ! j = j" by (simp del: upt_Suc)
    moreover from j ik k(3) have "rx_at pat s ([0 ..< Suc (length s)] ! j) = None" by simp
    ultimately show "rx_match pat (drop j s) = None" by (simp add: rx_at_None)
  qed
qed

lemma rx_search_None:
  assumes "rx_search pat s = None" "j \<le> length s"
  shows "rx_match pat (drop j s) = None"
proof -
  from assms(2) have "j \<in> set [0 ..< Suc (length s)]" by (simp del: upt_Suc)
  with assms(1) have "rx_at pat s j = None"
    unfolding rx_search_def first_some_None by blast
  then show ?thesis by (simp add: rx_at_None)
qed

lemma occurrence_matches:
  assumes "s = pre @ w @ post" "rx_lang pat w"
  shows "rx_match pat (drop (length pre) s) \<noteq> None"
  using rx_match_complete [OF assms(2), of post] assms(1) by simp

lemma first_some_rev_upt:
  "first_some f (rev [a ..< b]) = Some y \<Longrightarrow>
   \<exists>n. a \<le> n \<and> n < b \<and> f n = Some y \<and> (\<forall>j. n < j \<and> j < b \<longrightarrow> f j = None)"
proof (induction b)
  case 0
  then show ?case by simp
next
  case (Suc b)
  show ?case
  proof (cases "a \<le> b")
    case False
    with Suc.prems show ?thesis by simp
  next
    case True
    show ?thesis
    proof (cases "f b")
      case (Some z)
      with True Suc.prems have "f b = Some y" by simp
      with True show ?thesis by (intro exI [of _ b]) auto
    next
      case None
      with True Suc.prems have "first_some f (rev [a ..< b]) = Some y" by simp
      from Suc.IH [OF this] obtain n where n: "a \<le> n" "n < b" "f n = Some y"
        "\<forall>j. n < j \<and> j < b \<longrightarrow> f j = None" by blast
      have "\<forall>j. n < j \<and> j < Suc b \<longrightarrow> f j = None"
        using n(4) None by (auto simp: less_Suc_eq)
      with n(1,2,3) show ?thesis by (intro exI [of _ n]) auto
    qed
  qed
qed

lemma not_wdd_at: "\<not> isword_dot_dash 64"
  by (simp add: isword_dot_dash_def isword_def)

lemma not_word_dot: "\<not> isword 46"
  by (simp add: isword_def)

lemma rx_last_many1:
  assumes "rx_match [Many1 p] s = Some rest"
  shows "rest = drop (length (takeWhile p s)) s \<and> 1 \<le> length (takeWhile p s)"
proof -
  let ?k = "length (takeWhile p s)"
  from assms have "first_some (\<lambda>n. Some (drop n s)) (rev [1 ..< Suc ?k]) = Some rest"
    by (simp del: upt_Suc)
  from first_some_rev_upt [OF this] obtain n where n: "1 \<le> n" "n < Suc ?k" "drop n s = rest"
    "\<forall>j. n < j \<and> j < Suc ?k \<longrightarrow> Some (drop j s) = None" by auto
  from n(4) have "\<not> (n < ?k)" by auto
  with n(2) have "n = ?k" by simp
  with n(1,3) show ?thesis by simp
qed

lemma email_first_stage:
  assumes m: "rx_match email_pattern s = Some rest"
    and s: "s = l @ 64 # s2" and l: "list_all isword_dot_dash l"
  shows "rx_match [Many1 isword_dot_dash, One (\<lambda>c. c = 46), Many1 isword] s2 = Some rest"
proof -
  let ?r1 = "[One (\<lambda>c. c = 64), Many1 isword_dot_dash, One (\<lambda>c. c = 46), Many1 isword]"
  have tw: "takeWhile isword_dot_dash s = l"
    using l not_wdd_at unfolding s by (simp add: list_all_iff takeWhile_append2)
  from m have "first_some (\<lambda>n. rx_match ?r1 (drop n s)) (rev [1 ..< Suc (length l)]) = Some rest"
    unfolding email_pattern_def using tw by (simp del: upt_Suc)
  from first_some_SomeD [OF this] obtain n where n0: "n \<in> set (rev [1 ..< Suc (length l)])"
    and n2: "rx_match ?r1 (drop n s) = Some rest" by blast
  from n0 have n1: "n \<le> length l" by (simp del: upt_Suc)
  note n = n1 n2
  have "\<not> n < length l"
  proof
    assume lt: "n < length l"
    then obtain c cs where d: "drop n l = c # cs" by (cases "drop n l") auto
    then have "c \<in> set l" by (metis in_set_dropD list.set_intros(1))
    with l have "isword_dot_dash c" by (simp add: list_all_iff)
    then have "c \<noteq> 64" using not_wdd_at by auto
    moreover have "drop n s = c # cs @ 64 # s2" using lt d unfolding s by simp
    ultimately show False using n(2) by simp
  qed
  with n(1) have "n = length l" by simp
  with n(2) show ?thesis unfolding s by simp
qed

lemma email_greedy_longest:
  assumes m: "rx_match email_pattern s = Some rest"
    and s: "s = w @ post" and w: "email_shaped w"
  shows "length rest \<le> length post"
proof -
  let ?A = isword_dot_dash
  let ?r3 = "[One (\<lambda>c. c = 46), Many1 isword]"
  from w obtain l d t where w': "w = l @ [64] @ d @ [46] @ t" "l \<noteq> []" "d \<noteq> []" "t \<noteq> []"
    "list_all ?A l" "list_all ?A d" "list_all isword t"
    unfolding email_shaped_def by blast
  define s2 where "s2 = d @ 46 # t @ post"
  have s': "s = l @ 64 # s2" unfolding s w' s2_def by simp
  from email_first_stage [OF m s' w'(5)]
  have m2: "rx_match (Many1 ?A # ?r3) s2 = Some rest" .
  let ?k2 = "length (takeWhile ?A s2)"
  from m2 have "first_some (\<lambda>n. rx_match ?r3 (drop n s2)) (rev [1 ..< Suc ?k2]) = Some rest"
    by (simp del: upt_Suc)
  from first_some_rev_upt [OF this] obtain n where n: "1 \<le> n" "n < Suc ?k2"
    "rx_match ?r3 (drop n s2) = Some rest"
    "\<forall>j. n < j \<and> j < Suc ?k2 \<longrightarrow> rx_match ?r3 (drop j s2) = None" by blast
  \<comment> \<open>the split at the end of \<open>d\<close> is one the matcher can take\<close>
  have dk: "length d \<le> ?k2"
    unfolding s2_def using length_le_takeWhile [OF w'(6)] by simp
  have "rx_lang [Many1 isword] t"
    unfolding rx_lang.simps using w'(4,7) by (intro exI [of _ t] exI [of _ "[]"]) simp
  then have "rx_lang ?r3 (46 # t)" by simp
  from rx_match_complete [OF this, of post]
  have "rx_match ?r3 (drop (length d) s2) \<noteq> None" unfolding s2_def by simp
  with n(4) dk have dn: "length d \<le> n" by (cases "n < length d") auto
  \<comment> \<open>what the matcher took after its own split\<close>
  from n(3) obtain s3 where s3: "drop n s2 = 46 # s3" "rx_match [Many1 isword] s3 = Some rest"
    by (auto split: list.splits if_splits)
  from rx_last_many1 [OF s3(2)]
  have rest: "rest = drop (length (takeWhile isword s3)) s3" by simp
  have ls3: "length s3 = length s2 - n - 1"
    using arg_cong [OF s3(1), of length] by simp
  have ls2: "length s2 = length d + 1 + length t + length post" unfolding s2_def by simp
  show ?thesis
  proof (cases "n = length d")
    case True
    with s3(1) have "s3 = t @ post" unfolding s2_def by simp
    then have "length t \<le> length (takeWhile isword s3)"
      using length_le_takeWhile [OF w'(7), of post] by simp
    with rest ls3 ls2 True show ?thesis by simp
  next
    case False
    with dn have gt: "length d < n" by simp
    have "\<not> n < length d + 1 + length t"
    proof
      assume lt: "n < length d + 1 + length t"
      define i where "i = n - length d - 1"
      have i: "i < length t" "n = length d + 1 + i" using lt gt unfolding i_def by auto
      have "drop n s2 = drop i t @ post"
        unfolding s2_def i(2) using i(1) by simp
      with s3(1) have "drop i t @ post = 46 # s3" by simp
      moreover from i(1) obtain c cs where "drop i t = c # cs" by (cases "drop i t") auto
      ultimately have "drop i t = 46 # cs" by simp
      then have "46 \<in> set t" by (metis in_set_dropD list.set_intros(1))
      with w'(7) show False using not_word_dot by (simp add: list_all_iff)
    qed
    with rest ls3 ls2 show ?thesis by simp
  qed
qed

lemma email_shaped_nonempty: "email_shaped w \<Longrightarrow> w \<noteq> []"
  by (auto simp: email_shaped_def)

lemma occurs_at_drop:
  assumes "occurs_at w i s"
  shows "drop i s = w @ drop (i + length w) s"
proof -
  have "drop i s = take (length w) (drop i s) @ drop (length w) (drop i s)"
    by (simp only: append_take_drop_id)
  also have "take (length w) (drop i s) = w" using assms unfolding occurs_at_def by simp
  also have "drop (length w) (drop i s) = drop (i + length w) s" by (simp add: add.commute)
  finally show ?thesis .
qed

lemma occurs_atD:
  assumes "occurs_at w i s"
  shows "s = take i s @ w @ drop (i + length w) s \<and> length (take i s) = i"
proof -
  have "s = take i s @ drop i s" by simp
  then have "s = take i s @ w @ drop (i + length w) s"
    using occurs_at_drop [OF assms] by simp
  moreover from assms have "i \<le> length s" unfolding occurs_at_def by simp
  ultimately show ?thesis by simp
qed

lemma occurs_atI:
  assumes "drop i s = w @ rest" "i \<le> length s"
  shows "occurs_at w i s"
proof -
  have "length (drop i s) = length w + length rest" using assms(1) by simp
  then have "i + length w \<le> length s" using assms(2) by simp
  moreover have "take (length w) (drop i s) = w" using assms(1) by simp
  ultimately show ?thesis unfolding occurs_at_def by simp
qed


lemma no_email_in_hello: "\<forall>i w. occurs_at w i (ustr ''hello'') \<longrightarrow> \<not> email_shaped w"
proof (intro allI impI notI)
  fix i w assume o: "occurs_at w i (ustr ''hello'')" and e: "email_shaped w"
  from e obtain l r where "w = l @ [64] @ r" unfolding email_shaped_def by blast
  then have "64 \<in> set w" by simp
  moreover from occurs_atD [OF o] obtain a b where "ustr ''hello'' = a @ w @ b" by blast
  then have "set w \<subseteq> set (ustr ''hello'')" by (metis Un_upper1 Un_upper2 set_append subset_trans)
  ultimately have "64 \<in> set (ustr ''hello'')" by blast
  then show False by (simp add: ustr_def)
qed

text \<open>
  Claim C8.  When no email-shaped string stands anywhere in the text, \<open>extract_email\<close>
  gives the empty string.  Otherwise its result is email-shaped and stands in the text at a
  position such that no email-shaped string stands further left; of the email-shaped
  strings at that position it is the longest.
\<close>

theorem extract_email_leftmost:
  "((\<forall>i w. occurs_at w i text \<longrightarrow> \<not> email_shaped w) \<longrightarrow> extract_email text = [])
   \<and> ((\<exists>i w. occurs_at w i text \<and> email_shaped w) \<longrightarrow>
        (\<exists>i. occurs_at (extract_email text) i text \<and> email_shaped (extract_email text)
           \<and> (\<forall>j w. occurs_at w j text \<and> email_shaped w \<longrightarrow>
                 i \<le> j \<and> (j = i \<longrightarrow> length w \<le> length (extract_email text)))))"
proof (intro conjI impI)
  assume none: "\<forall>i w. occurs_at w i text \<longrightarrow> \<not> email_shaped w"
  show "extract_email text = []"
  proof (cases "rx_search email_pattern text")
    case None
    then show ?thesis by (simp add: extract_email_def)
  next
    case (Some r)
    obtain i m where r: "r = (i, m)" by (cases r)
    from rx_search_Some [OF Some [unfolded r]] obtain rest where
      i: "i \<le> length text" and d: "drop i text = m @ rest" and e: "rx_lang email_pattern m" by blast
    have "occurs_at m i text" using d i by (rule occurs_atI)
    with none e show ?thesis by (simp add: email_shaped_lang)
  qed
next
  assume "\<exists>i w. occurs_at w i text \<and> email_shaped w"
  then obtain i0 w0 where o0: "occurs_at w0 i0 text" "email_shaped w0" by blast
  from occurs_atD [OF o0(1)] have t0: "text = take i0 text @ w0 @ drop (i0 + length w0) text"
    and l0: "length (take i0 text) = i0" by auto
  have nn0: "rx_match email_pattern (drop i0 text) \<noteq> None"
    using occurrence_matches [OF t0] o0(2) l0 by (simp add: email_shaped_lang)
  have le0: "i0 \<le> length text" using o0(1) unfolding occurs_at_def by simp
  have "rx_search email_pattern text \<noteq> None"
  proof
    assume "rx_search email_pattern text = None"
    from rx_search_None [OF this le0] nn0 show False by simp
  qed
  then obtain i m where sm: "rx_search email_pattern text = Some (i, m)" by auto
  then have em: "extract_email text = m" by (simp add: extract_email_def)
  from rx_search_Some [OF sm] obtain rest where
    i: "i \<le> length text" and mt: "rx_match email_pattern (drop i text) = Some rest"
    and d: "drop i text = m @ rest" and e: "rx_lang email_pattern m"
    and first: "\<forall>j < i. rx_match email_pattern (drop j text) = None" by blast
  have occ: "occurs_at m i text" using d i by (rule occurs_atI)
  have left: "\<forall>j w. occurs_at w j text \<and> email_shaped w \<longrightarrow> i \<le> j \<and> (j = i \<longrightarrow> length w \<le> length m)"
  proof (intro allI impI)
    fix j w assume a: "occurs_at w j text \<and> email_shaped w"
    from occurs_atD [of w j "text"] a have tj: "text = take j text @ w @ drop (j + length w) text"
      and lj: "length (take j text) = j" by auto
    have nn: "rx_match email_pattern (drop j text) \<noteq> None"
      using occurrence_matches [OF tj] a lj by (simp add: email_shaped_lang)
    with first have ij: "i \<le> j" by (cases "j < i") auto
    have "j = i \<longrightarrow> length w \<le> length m"
    proof
      assume ji: "j = i"
      have dj: "drop i text = w @ drop (i + length w) text"
        using a occurs_at_drop [of w i "text"] unfolding ji by simp
      from email_greedy_longest [OF mt dj] a
      have "length rest \<le> length (drop (i + length w) text)" by simp
      moreover have "length (drop i text) = length m + length rest" using d by simp
      moreover have "length (drop i text) = length w + length (drop (i + length w) text)"
        using arg_cong [OF dj, of length] by (simp only: length_append)
      ultimately show "length w \<le> length m" by linarith
    qed
    with ij show "i \<le> j \<and> (j = i \<longrightarrow> length w \<le> length m)" by simp
  qed
  show "\<exists>i. occurs_at (extract_email text) i text \<and> email_shaped (extract_email text)
           \<and> (\<forall>j w. occurs_at w j text \<and> email_shaped w \<longrightarrow>
                 i \<le> j \<and> (j = i \<longrightarrow> length w \<le> length (extract_email text)))"
  proof (intro exI [of _ i] conjI)
    show "occurs_at (extract_email text) i text" unfolding em by (rule occ)
    show "email_shaped (extract_email text)" unfolding em using e by (simp add: email_shaped_lang)
    show "\<forall>j w. occurs_at w j text \<and> email_shaped w \<longrightarrow>
                 i \<le> j \<and> (j = i \<longrightarrow> length w \<le> length (extract_email text))"
      unfolding em by (rule left)
  qed
qed

theorem extract_email_leftmost_witness:
  "extract_email (ustr ''hello'') = []
   \<and> (\<exists>i. occurs_at (extract_email (ustr ''x a@b.c d@e.f'')) i (ustr ''x a@b.c d@e.f'')
          \<and> email_shaped (extract_email (ustr ''x a@b.c d@e.f''))
          \<and> i \<le> 2)"
proof (rule conjI)
  show "extract_email (ustr ''hello'') = []"
    by (rule extract_email_leftmost [of "ustr ''hello''", THEN conjunct1, THEN mp,
          OF no_email_in_hello])
next
  show "\<exists>i. occurs_at (extract_email (ustr ''x a@b.c d@e.f'')) i (ustr ''x a@b.c d@e.f'')
          \<and> email_shaped (extract_email (ustr ''x a@b.c d@e.f''))
          \<and> i \<le> 2"
  proof -
    let ?t = "ustr ''x a@b.c d@e.f''"
    have o: "occurs_at (ustr ''a@b.c'') 2 ?t"
      by (simp add: occurs_at_def ustr_def)
    have e: "email_shaped (ustr ''a@b.c'')"
      unfolding email_shaped_def
      by (intro exI [of _ "ustr ''a''"] exI [of _ "ustr ''b''"] exI [of _ "ustr ''c''"])
         (simp add: rx_eval)
    from o e have ex: "\<exists>i w. occurs_at w i ?t \<and> email_shaped w" by (intro exI conjI)
    from extract_email_leftmost [of ?t, THEN conjunct2, THEN mp, OF ex] obtain i where
      i1: "occurs_at (extract_email ?t) i ?t" and i2: "email_shaped (extract_email ?t)" and
      i3: "\<forall>j w. occurs_at w j ?t \<and> email_shaped w \<longrightarrow>
         i \<le> j \<and> (j = i \<longrightarrow> length w \<le> length (extract_email ?t))" by (elim exE conjE)
    from i3 [rule_format, of "ustr ''a@b.c''" 2] o e have "i \<le> 2" by simp
    with i1 i2 show ?thesis by (intro exI [of _ i] conjI)
  qed
qed

section \<open>Properties of \<open>extract_job_data\<close>\<close>

lemma py_split_nonempty: "py_split sep s \<noteq> []"
  by (subst py_split.simps) (simp split: option.splits prod.splits)

lemma py_split_unfold:
  "py_split sep s =
     (case cut sep s of None \<Rightarrow> [s]
      | Some (a, b) \<Rightarrow> a # (case cut sep b of None \<Rightarrow> [b] | Some (c, d) \<Rightarrow> c # py_split sep d))"
  by (subst py_split.simps, subst py_split.simps) (simp split: option.splits prod.splits)

lemma split_heading_eq:
  "split_heading h =
     Inr (case cut (ustr '' at '') h of
            None \<Rightarrow> (py_strip h, [])
          | Some (a, b) \<Rightarrow>
              (py_strip a, py_strip (case cut (ustr '' at '') b of None \<Rightarrow> b | Some (c, d) \<Rightarrow> c)))"
  unfolding split_heading_def
  by (subst py_split_unfold) (simp split: option.splits prod.splits)

lemma contains_length: "contains sub s \<Longrightarrow> length sub \<le> length s"
  by (induction s) (auto dest: prefix_length_le)

lemma cut_None_iff: "sep \<noteq> [] \<Longrightarrow> cut sep s = None \<longleftrightarrow> \<not> contains sep s"
  by (induction s) (auto split: option.splits)

lemma cut_Some_append: "cut sep s = Some (a, b) \<Longrightarrow> s = a @ sep @ b"
proof (induction s arbitrary: a)
  case Nil
  then show ?case by simp
next
  case (Cons c cs)
  show ?case
  proof (cases "sep \<noteq> [] \<and> prefix sep (c # cs)")
    case True
    with Cons.prems have ab: "a = []" "b = drop (length sep) (c # cs)" by auto
    from True obtain r where r: "c # cs = sep @ r" by (auto simp: prefix_def)
    then have "drop (length sep) (c # cs) = r" by (metis append_eq_conv_conj)
    with ab r show ?thesis by simp
  next
    case False
    with Cons.prems obtain a' where a': "cut sep cs = Some (a', b)" "a = c # a'"
      by (auto split: option.splits)
    from Cons.IH [OF a'(1)] a'(2) show ?thesis by simp
  qed
qed

lemma cut_Some_sep: "cut sep s = Some (a, b) \<Longrightarrow> sep \<noteq> []"
  by (induction s arbitrary: a) (auto split: if_splits option.splits)

lemma cut_Some_first: "cut sep s = Some (a, b) \<Longrightarrow> \<not> contains sep (a @ butlast sep)"
proof (induction s arbitrary: a)
  case Nil
  then show ?case by simp
next
  case (Cons c cs)
  show ?case
  proof (cases "sep \<noteq> [] \<and> prefix sep (c # cs)")
    case True
    with Cons.prems have "a = []" by auto
    moreover have "length (butlast sep) < length sep" using True by simp
    ultimately show ?thesis using contains_length [of sep "butlast sep"] by auto
  next
    case False
    with Cons.prems obtain a' where a': "cut sep cs = Some (a', b)" "a = c # a'"
      by (auto split: option.splits)
    have ne: "sep \<noteq> []" using a'(1) by (rule cut_Some_sep)
    from cut_Some_append [OF a'(1)] have cs: "cs = a' @ sep @ b" .
    have "\<not> prefix sep (c # a' @ butlast sep)"
    proof
      assume p: "prefix sep (c # a' @ butlast sep)"
      have "prefix (c # a' @ butlast sep) (c # cs)"
        unfolding cs by (simp add: prefixeq_butlast)
      with p have "prefix sep (c # cs)" by (rule prefix_order.trans)
      with False ne show False by simp
    qed
    with Cons.IH [OF a'(1)] a'(2) show ?thesis by simp
  qed
qed

lemma find_SomeD: "List.find p xs = Some x \<Longrightarrow> p x"
  by (auto simp: find_Some_iff)

lemma application_contact_error:
  assumes "application_contact soup = Inl e"
  shows "e = AttributeError \<and>
         (\<exists>method_block following. find_with_next is_method_block soup = Some (method_block, following)
            \<and> List.find (tag_is (ustr ''div'')) following = None)"
proof -
  from assms obtain mb fol where f: "find_with_next is_method_block soup = Some (mb, fol)"
    unfolding application_contact_def by (auto split: option.splits)
  show ?thesis
  proof (cases "List.find (tag_is (ustr ''div'')) fol")
    case None
    with assms f show ?thesis unfolding application_contact_def by simp
  next
    case (Some d)
    show ?thesis
    proof (cases "find_tag has_href (contents d)")
      case None
      with assms f Some show ?thesis unfolding application_contact_def by simp
    next
      case a: (Some a_tag)
      then have "has_href a_tag" unfolding find_tag_def by (rule find_SomeD)
      then obtain href where "attr (ustr ''href'') a_tag = Some href"
        unfolding has_href_def by auto
      with assms f Some a show ?thesis unfolding application_contact_def by simp
    qed
  qed
qed

lemma title_company_total: "\<exists>title company. title_company soup = Inr (title, company)"
  unfolding title_company_def
  by (cases "find_tag (tag_is (ustr ''h1'')) soup") (auto simp: split_heading_eq split: option.splits)

lemma extract_job_data_cases:
  obtains (err) e where "application_contact soup = Inl e" "extract_job_data soup = Inl e"
  | (none) "application_contact soup = Inr ([], [])" "extract_job_data soup = Inr None"
  | (some) email url title company where "application_contact soup = Inr (email, url)"
      "email \<noteq> [] \<or> url \<noteq> []" "title_company soup = Inr (title, company)"
      "extract_job_data soup =
         Inr (Some (job_record title company (tagline_of soup) (key_info_of soup)
                      (fst (description_of soup)) (snd (description_of soup)) email url))"
proof -
  from title_company_total obtain title company where tc: "title_company soup = Inr (title, company)"
    by blast
  show thesis
  proof (cases "application_contact soup")
    case (Inl e)
    with tc have "extract_job_data soup = Inl e"
      unfolding extract_job_data_def by (auto simp: Let_def case_prod_beta)
    with Inl show thesis by (rule err)
  next
    case (Inr p)
    obtain email url where p: "p = (email, url)" by (cases p)
    show thesis
    proof (cases "email = [] \<and> url = []")
      case True
      with tc Inr p have x: "extract_job_data soup = Inr None"
        unfolding extract_job_data_def by (auto simp: Let_def case_prod_beta)
      from True Inr p have "application_contact soup = Inr ([], [])" by simp
      then show thesis using x by (rule none)
    next
      case False
      with tc Inr p have "extract_job_data soup =
         Inr (Some (job_record title company (tagline_of soup) (key_info_of soup)
                      (fst (description_of soup)) (snd (description_of soup)) email url))"
        unfolding extract_job_data_def by (auto simp: Let_def case_prod_beta)
      moreover from Inr p have "application_contact soup = Inr (email, url)" by simp
      moreover from False have "email \<noteq> [] \<or> url \<noteq> []" by simp
      ultimately show thesis using tc by (intro some [of email url title company])
    qed
  qed
qed

lemmas dom_eval = descendants_def walk_all_def find_tag_def find_all_def find_with_next_def
  get_text_def has_class_def select_def select_one_def extract_text_safe_def

lemmas job_eval = title_company_def split_heading_def tagline_of_def
  is_about_link_def key_info_of_def key_step_def span_of_class_def no_key_fields_def
  description_of_def application_contact_def is_method_block_def has_href_def
  BASE_URL_def

lemma job_record_keys: "map fst (job_record t c tg kf d r e u) = record_keys"
  by (simp add: job_record_def record_keys_def)

lemma record_keys_distinct: "distinct record_keys"
  by (simp add: record_keys_def ustr_def)

lemma job_record_email: "map_of (job_record t c tg kf d r e u) (ustr ''application_email'') = Some e"
  by (simp add: job_record_def ustr_def)

lemma job_record_url: "map_of (job_record t c tg kf d r e u) (ustr ''application_url'') = Some u"
  by (simp add: job_record_def ustr_def)

text \<open>
  Claim C1.  \<open>extract_job_data\<close> returns \<open>None\<close> exactly when the extracted application
  email and the extracted application URL are both empty; when one of them is not empty it
  returns a record, which holds them.
\<close>

theorem extract_job_data_none_iff_no_contact:
  "(extract_job_data soup = Inr None \<longleftrightarrow> application_contact soup = Inr ([], []))
   \<and> (\<forall>email url. application_contact soup = Inr (email, url) \<and> (email \<noteq> [] \<or> url \<noteq> []) \<longrightarrow>
        (\<exists>r. extract_job_data soup = Inr (Some r)
           \<and> map_of r (ustr ''application_email'') = Some email
           \<and> map_of r (ustr ''application_url'') = Some url))"
proof (cases soup rule: extract_job_data_cases)
  case (err e)
  then show ?thesis by simp
next
  case none
  then show ?thesis by simp
next
  case (some email url title company)
  then show ?thesis by (auto simp: job_record_email job_record_url)
qed

lemma contact_no_contact: "application_contact page_no_contact = Inr ([], [])"
  by (simp add: page_no_contact_def job_eval dom_eval text_eval)

lemma contact_with_email: "application_contact page_with_email = Inr (ustr ''hr@acme.com'', [])"
  by (simp add: page_with_email_def job_eval dom_eval text_eval rx_eval)

theorem extract_job_data_none_iff_no_contact_witness:
  "extract_job_data page_no_contact = Inr None
   \<and> (\<exists>r. extract_job_data page_with_email = Inr (Some r)
         \<and> map_of r (ustr ''application_email'') = Some (ustr ''hr@acme.com'')
         \<and> map_of r (ustr ''application_url'') = Some [])"
proof (rule conjI)
  show "extract_job_data page_no_contact = Inr None"
    using extract_job_data_none_iff_no_contact [of page_no_contact, THEN conjunct1]
      contact_no_contact by simp
next
  have "ustr ''hr@acme.com'' \<noteq> []" by (simp add: ustr_def)
  with contact_with_email
  have "application_contact page_with_email = Inr (ustr ''hr@acme.com'', [])
        \<and> (ustr ''hr@acme.com'' \<noteq> [] \<or> ([]::ustr) \<noteq> [])" by simp
  from extract_job_data_none_iff_no_contact [of page_with_email, THEN conjunct2, rule_format, OF this]
  show "\<exists>r. extract_job_data page_with_email = Inr (Some r)
         \<and> map_of r (ustr ''application_email'') = Some (ustr ''hr@acme.com'')
         \<and> map_of r (ustr ''application_url'') = Some []" .
qed

text \<open>
  The only statement of \<open>extract_job_data\<close> that can raise is the call of \<open>get_text\<close> on the
  result of \<open>find_next('div')\<close>, when the heading of the application method is there and no
  \<open>div\<close> follows it.
\<close>

lemma extract_job_data_error:
  assumes "extract_job_data soup = Inl e"
  shows "e = AttributeError \<and>
         (\<exists>method_block following. find_with_next is_method_block soup = Some (method_block, following)
            \<and> List.find (tag_is (ustr ''div'')) following = None)"
proof (cases soup rule: extract_job_data_cases)
  case (err e')
  with assms have "application_contact soup = Inl e" by simp
  then show ?thesis by (rule application_contact_error)
next
  case none
  with assms show ?thesis by simp
next
  case (some email url title company)
  with assms show ?thesis by simp
qed

text \<open>
  Claim C3 says that \<open>extract_job_data\<close> never raises on missing markup.  On a page with
  the heading \<open>h2\<close> of the application method and no \<open>div\<close> after it the code raises
  \<open>AttributeError\<close>: line 120 calls \<open>get_text\<close> on \<open>None\<close>, where lines 89 and 90 pass
  the result of \<open>find_next\<close> through \<open>extract_text_safe\<close>.
\<close>

theorem extract_job_data_raises_without_div:
  "extract_job_data page_no_div = Inl AttributeError"
proof -
  have "application_contact page_no_div = Inl AttributeError"
    by (simp add: page_no_div_def job_eval dom_eval text_eval)
  moreover have "title_company page_no_div = Inr ([], [])"
    by (simp add: page_no_div_def job_eval dom_eval text_eval)
  ultimately show ?thesis by (simp add: extract_job_data_def)
qed

text \<open>
  The record of \<open>extract_job_data\<close> has the 17 keys of \<open>record_keys\<close>, in that order, each
  once.
\<close>

lemma record_has_the_17_keys:
  "extract_job_data soup = Inr (Some r) \<Longrightarrow>
     map fst r = record_keys \<and> length r = 17 \<and> distinct (map fst r)"
proof (cases soup rule: extract_job_data_cases)
  case (err e)
  moreover assume "extract_job_data soup = Inr (Some r)"
  ultimately show ?thesis by simp
next
  case none
  moreover assume "extract_job_data soup = Inr (Some r)"
  ultimately show ?thesis by simp
next
  case (some email url title company)
  moreover assume "extract_job_data soup = Inr (Some r)"
  ultimately have r: "r = job_record title company (tagline_of soup) (key_info_of soup)
                      (fst (description_of soup)) (snd (description_of soup)) email url" by simp
  have k: "map fst r = record_keys" unfolding r by (rule job_record_keys)
  moreover have "length r = 17" using arg_cong [OF k, of length] by (simp add: record_keys_def)
  moreover have "distinct (map fst r)" unfolding k by (rule record_keys_distinct)
  ultimately show ?thesis by simp
qed

lemma py_strip_id:
  assumes "s \<noteq> []" "\<not> isspace (hd s)" "\<not> isspace (last s)"
  shows "py_strip s = s"
proof -
  from assms(1,2) have a: "dropWhile isspace s = s" by (cases s) auto
  from assms(1,3) have "\<not> isspace (hd (rev s))" by (simp add: hd_rev)
  with assms(1) have "dropWhile isspace (rev s) = rev s" by (cases "rev s") auto
  with a show ?thesis by (simp add: py_strip_def)
qed

lemma py_strip_ends:
  assumes "py_strip s \<noteq> []"
  shows "\<not> isspace (hd (py_strip s)) \<and> \<not> isspace (last (py_strip s))"
proof -
  define u where "u = dropWhile isspace s"
  define v where "v = dropWhile isspace (rev u)"
  have r: "py_strip s = rev v" by (simp add: py_strip_def u_def v_def)
  with assms have v: "v \<noteq> []" by simp
  then have hv: "\<not> isspace (hd v)" unfolding v_def by (rule hd_dropWhile)
  from v have u: "u \<noteq> []" unfolding v_def by auto
  then have hu: "\<not> isspace (hd u)" unfolding u_def by (rule hd_dropWhile)
  have "rev u = takeWhile isspace (rev u) @ v" unfolding v_def by simp
  then have "last (rev u) = last v" using v by (metis last_appendR)
  then have "last v = hd u" using u by (simp add: last_rev)
  with hu hv v show ?thesis unfolding r by (simp add: hd_rev last_rev)
qed

lemma py_join_ends:
  assumes "xs \<noteq> []" "\<forall>x \<in> set xs. x \<noteq> []"
  shows "py_join sep xs \<noteq> [] \<and> hd (py_join sep xs) = hd (hd xs) \<and> last (py_join sep xs) = last (last xs)"
  using assms
proof (induction sep xs rule: py_join.induct)
  case (1 sep)
  then show ?case by simp
next
  case (2 sep x)
  then show ?case by simp
next
  case (3 sep x y ys)
  then have "py_join sep (y # ys) \<noteq> [] \<and> last (py_join sep (y # ys)) = last (last (y # ys))"
    by simp
  moreover from 3 have "x \<noteq> []" by simp
  ultimately show ?case by simp
qed

lemma get_text_stripped: "py_strip (get_text sep tag) = get_text sep tag"
proof -
  define ps where "ps = filter (\<lambda>t. t \<noteq> []) (map py_strip (concat (map node_text (descendants (contents tag)))))"
  have g: "get_text sep tag = py_join sep ps" by (simp add: get_text_def ps_def)
  show ?thesis
  proof (cases "ps = []")
    case True
    then show ?thesis unfolding g by (simp add: py_strip_def)
  next
    case False
    have ne: "\<forall>x \<in> set ps. x \<noteq> []" unfolding ps_def by simp
    have st: "\<forall>x \<in> set ps. \<not> isspace (hd x) \<and> \<not> isspace (last x)"
    proof
      fix x assume "x \<in> set ps"
      then obtain y where "x = py_strip y" "x \<noteq> []" unfolding ps_def by auto
      then show "\<not> isspace (hd x) \<and> \<not> isspace (last x)" using py_strip_ends [of y] by simp
    qed
    from py_join_ends [OF False ne, of sep]
    have j: "py_join sep ps \<noteq> []" "hd (py_join sep ps) = hd (hd ps)"
      "last (py_join sep ps) = last (last ps)" by simp_all
    from False have "hd ps \<in> set ps" "last ps \<in> set ps" by simp_all
    with st have "\<not> isspace (hd (hd ps))" "\<not> isspace (last (last ps))" by blast+
    with j show ?thesis unfolding g by (intro py_strip_id) simp_all
  qed
qed

text \<open>
  Claim C4, as the code has it.  Let \<open>h\<close> be the text of the first \<open>h1\<close>.  When \<open>at\<close>
  between two spaces does not occur in \<open>h\<close>, the title is \<open>h\<close> and the company is empty.
  Otherwise the first occurrence cuts \<open>h\<close> into \<open>a\<close> and \<open>b\<close>; the title is \<open>a\<close> trimmed,
  and the company is the part of \<open>b\<close> before the next occurrence in \<open>b\<close> (all of \<open>b\<close> when
  there is none), trimmed: the heading is split at every occurrence and the second part is
  taken.
\<close>

theorem title_company_splits_at_every_at:
  assumes "find_tag (tag_is (ustr ''h1'')) soup = Some h1"
  shows "(\<not> contains (ustr '' at '') (get_text (ustr '' '') h1) \<longrightarrow>
            title_company soup = Inr (get_text (ustr '' '') h1, []))
       \<and> (contains (ustr '' at '') (get_text (ustr '' '') h1) \<longrightarrow>
            (\<exists>a b. cut (ustr '' at '') (get_text (ustr '' '') h1) = Some (a, b)))
       \<and> (\<forall>a b. cut (ustr '' at '') (get_text (ustr '' '') h1) = Some (a, b) \<longrightarrow>
            get_text (ustr '' '') h1 = a @ ustr '' at '' @ b
            \<and> \<not> contains (ustr '' at '') (a @ butlast (ustr '' at ''))
            \<and> title_company soup =
                Inr (py_strip a,
                     py_strip (case cut (ustr '' at '') b of None \<Rightarrow> b | Some (c, d) \<Rightarrow> c)))"
proof -
  let ?sep = "ustr '' at ''"
  let ?h = "get_text (ustr '' '') h1"
  have ne: "?sep \<noteq> []" by (simp add: ustr_def)
  have tc: "title_company soup = split_heading ?h"
    using assms by (simp add: title_company_def)
  have 1: "\<not> contains ?sep ?h \<longrightarrow> title_company soup = Inr (?h, [])"
  proof
    assume "\<not> contains ?sep ?h"
    then have "cut ?sep ?h = None" using cut_None_iff [OF ne] by simp
    then show "title_company soup = Inr (?h, [])"
      unfolding tc split_heading_eq by (simp add: get_text_stripped)
  qed
  have 2: "contains ?sep ?h \<longrightarrow> (\<exists>a b. cut ?sep ?h = Some (a, b))"
  proof
    assume "contains ?sep ?h"
    then have "cut ?sep ?h \<noteq> None" using cut_None_iff [OF ne] by simp
    then show "\<exists>a b. cut ?sep ?h = Some (a, b)" by auto
  qed
  have 3: "\<forall>a b. cut ?sep ?h = Some (a, b) \<longrightarrow>
            ?h = a @ ?sep @ b \<and> \<not> contains ?sep (a @ butlast ?sep)
            \<and> title_company soup =
                Inr (py_strip a, py_strip (case cut ?sep b of None \<Rightarrow> b | Some (c, d) \<Rightarrow> c))"
  proof (intro allI impI conjI)
    fix a b assume c: "cut ?sep ?h = Some (a, b)"
    show "?h = a @ ?sep @ b" using c by (rule cut_Some_append)
    show "\<not> contains ?sep (a @ butlast ?sep)" using c by (rule cut_Some_first)
    show "title_company soup =
            Inr (py_strip a, py_strip (case cut ?sep b of None \<Rightarrow> b | Some (c, d) \<Rightarrow> c))"
      unfolding tc split_heading_eq using c by simp
  qed
  from 1 2 3 show ?thesis by (intro conjI)
qed

lemma find_h1_two_at:
  "find_tag (tag_is (ustr ''h1'')) page_two_at = Some (Elem (ustr ''h1'') [] [Text (ustr ''Engineer at Foo at Bar'')])"
  by (simp add: page_two_at_def dom_eval ustr_def)

lemma text_two_at:
  "get_text (ustr '' '') (Elem (ustr ''h1'') [] [Text (ustr ''Engineer at Foo at Bar'')]) = ustr ''Engineer at Foo at Bar''"
  by (simp add: dom_eval text_eval)

lemma cut_two_at:
  "cut (ustr '' at '') (ustr ''Engineer at Foo at Bar'') = Some (ustr ''Engineer'', ustr ''Foo at Bar'')"
  by (simp add: ustr_def)

theorem title_company_splits_at_every_at_witness:
  "title_company page_two_at = Inr (ustr ''Engineer'', ustr ''Foo'')
   \<and> contains (ustr '' at '') (ustr ''Engineer at Foo at Bar'')"
proof -
  let ?h1 = "Elem (ustr ''h1'') [] [Text (ustr ''Engineer at Foo at Bar'')]"
  note t = title_company_splits_at_every_at [OF find_h1_two_at, unfolded text_two_at]
  from t [THEN conjunct2, THEN conjunct2, rule_format, OF cut_two_at]
  have "title_company page_two_at =
          Inr (py_strip (ustr ''Engineer''),
               py_strip (case cut (ustr '' at '') (ustr ''Foo at Bar'') of None \<Rightarrow> ustr ''Foo at Bar''
                         | Some (c, d) \<Rightarrow> c))" by simp
  then have a: "title_company page_two_at = Inr (ustr ''Engineer'', ustr ''Foo'')"
    by (simp add: text_eval)
  have "contains (ustr '' at '') (ustr ''Engineer at Foo at Bar'')" by (simp add: ustr_def)
  with a show ?thesis by simp
qed

text \<open>
  Claim C4 as it is stated fails on a heading with two occurrences: the company is the
  text between them, not the whole remainder.
\<close>

theorem title_company_second_at_counterexample:
  "title_company page_two_at = Inr (ustr ''Engineer'', ustr ''Foo'')
   \<and> spec_split_heading (ustr ''Engineer at Foo at Bar'') = (ustr ''Engineer'', ustr ''Foo at Bar'')
   \<and> title_company page_two_at \<noteq> Inr (spec_split_heading (ustr ''Engineer at Foo at Bar''))"
  by (simp add: page_two_at_def title_company_def dom_eval split_heading_def py_split.simps
        spec_split_heading_def text_eval)

section \<open>Properties of \<open>get_job_links\<close>\<close>

lemma select_last:
  assumes "n \<in> set (select chain ns)"
  shows "chain \<noteq> [] \<and> (last chain) n"
proof (cases "rev chain")
  case Nil
  with assms show ?thesis by (simp add: select_def)
next
  case (Cons p outer)
  then have c: "chain = rev outer @ [p]" by (metis rev_rev_ident rev.simps(2))
  from assms Cons have "p n" by (auto simp: select_def)
  with c show ?thesis by simp
qed

lemma hrefs_total:
  "\<forall>n \<in> set tags. attr (ustr ''href'') n \<noteq> None \<Longrightarrow> \<exists>hs. hrefs tags = Inr hs \<and> length hs = length tags"
  by (induction tags) auto

lemma hrefs_select_job_anchor:
  assumes "chain \<noteq> []" "last chain = job_anchor"
  shows "\<exists>hs. hrefs (select chain soup) = Inr hs"
proof -
  have "\<forall>n \<in> set (select chain soup). attr (ustr ''href'') n \<noteq> None"
  proof
    fix n assume "n \<in> set (select chain soup)"
    from select_last [OF this] assms(2) have "job_anchor n" by simp
    then show "attr (ustr ''href'') n \<noteq> None" by (auto simp: job_anchor_def split: option.splits)
  qed
  from hrefs_total [OF this] show ?thesis by blast
qed

lemma hrefs_fallback: "\<exists>hs. hrefs (find_all fallback_anchor soup) = Inr hs"
proof -
  have "\<forall>n \<in> set (find_all fallback_anchor soup). attr (ustr ''href'') n \<noteq> None"
    by (auto simp: find_all_def fallback_anchor_def has_href_def)
  from hrefs_total [OF this] show ?thesis by blast
qed

text \<open>
  Claim C5.  No selector raises, and \<open>get_job_links\<close> returns the links of the first of
  the three selectors, in their fixed order, that finds at least one; the links of the
  other selectors are not added.  Only when all three find nothing does it return the
  \<open>href\<close> of every anchor whose \<open>href\<close> contains \<open>/job/\<close>.
\<close>

theorem get_job_links_first_match_wins:
  "\<exists>l1 l2 l3 lf.
     hrefs (select [div_of_class (ustr ''mag-b''), tag_is (ustr ''h2''), job_anchor] soup) = Inr l1
   \<and> hrefs (select [div_of_class (ustr ''job-listing''), tag_is (ustr ''h2''), job_anchor] soup) = Inr l2
   \<and> hrefs (select [job_anchor] soup) = Inr l3
   \<and> hrefs (find_all fallback_anchor soup) = Inr lf
   \<and> get_job_links soup =
        Inr (if l1 \<noteq> [] then l1 else if l2 \<noteq> [] then l2 else if l3 \<noteq> [] then l3 else lf)"
proof -
  obtain l1 where l1: "hrefs (select [div_of_class (ustr ''mag-b''), tag_is (ustr ''h2''), job_anchor] soup) = Inr l1"
    using hrefs_select_job_anchor [of "[div_of_class (ustr ''mag-b''), tag_is (ustr ''h2''), job_anchor]" soup]
    by auto
  obtain l2 where l2: "hrefs (select [div_of_class (ustr ''job-listing''), tag_is (ustr ''h2''), job_anchor] soup) = Inr l2"
    using hrefs_select_job_anchor [of "[div_of_class (ustr ''job-listing''), tag_is (ustr ''h2''), job_anchor]" soup]
    by auto
  obtain l3 where l3: "hrefs (select [job_anchor] soup) = Inr l3"
    using hrefs_select_job_anchor [of "[job_anchor]" soup] by auto
  obtain lf where lf: "hrefs (find_all fallback_anchor soup) = Inr lf"
    using hrefs_fallback by blast
  have "get_job_links soup =
        Inr (if l1 \<noteq> [] then l1 else if l2 \<noteq> [] then l2 else if l3 \<noteq> [] then l3 else lf)"
    by (simp add: get_job_links_def selectors_def l1 l2 l3 lf)
  with l1 l2 l3 lf show ?thesis by blast
qed

lemma get_job_links_total: "\<exists>ls. get_job_links soup = Inr ls"
proof -
  obtain l1 where l1: "hrefs (select [div_of_class (ustr ''mag-b''), tag_is (ustr ''h2''), job_anchor] soup) = Inr l1"
    using hrefs_select_job_anchor [of "[div_of_class (ustr ''mag-b''), tag_is (ustr ''h2''), job_anchor]" soup]
    by auto
  obtain l2 where l2: "hrefs (select [div_of_class (ustr ''job-listing''), tag_is (ustr ''h2''), job_anchor] soup) = Inr l2"
    using hrefs_select_job_anchor [of "[div_of_class (ustr ''job-listing''), tag_is (ustr ''h2''), job_anchor]" soup]
    by auto
  obtain l3 where l3: "hrefs (select [job_anchor] soup) = Inr l3"
    using hrefs_select_job_anchor [of "[job_anchor]" soup] by auto
  obtain lf where lf: "hrefs (find_all fallback_anchor soup) = Inr lf"
    using hrefs_fallback by blast
  show ?thesis by (simp add: get_job_links_def selectors_def l1 l2 l3 lf)
qed

lemmas link_eval = job_anchor_def div_of_class_def fallback_anchor_def has_href_def

lemma listing_mixed_first:
  "hrefs (select [div_of_class (ustr ''mag-b''), tag_is (ustr ''h2''), job_anchor] listing_mixed) = Inr [ustr ''/job/one'']"
  by (simp add: listing_mixed_def select_def walk_all_def link_eval has_class_def text_eval)

lemma listing_mixed_third:
  "hrefs (select [job_anchor] listing_mixed) = Inr [ustr ''/job/one'', ustr ''/job/two'']"
  by (simp add: listing_mixed_def select_def walk_all_def link_eval has_class_def text_eval)

theorem get_job_links_first_match_wins_witness:
  "get_job_links listing_mixed = Inr [ustr ''/job/one'']
   \<and> hrefs (select [job_anchor] listing_mixed) = Inr [ustr ''/job/one'', ustr ''/job/two'']"
proof -
  from get_job_links_first_match_wins [of listing_mixed] obtain l1 l2 l3 lf where
    a: "hrefs (select [div_of_class (ustr ''mag-b''), tag_is (ustr ''h2''), job_anchor] listing_mixed) = Inr l1"
    and g: "get_job_links listing_mixed =
        Inr (if l1 \<noteq> [] then l1 else if l2 \<noteq> [] then l2 else if l3 \<noteq> [] then l3 else lf)"
    by (elim exE conjE)
  from a listing_mixed_first have "l1 = [ustr ''/job/one'']" by simp
  with g have "get_job_links listing_mixed = Inr [ustr ''/job/one'']" by simp
  with listing_mixed_third show ?thesis by simp
qed

section \<open>Properties of \<open>main\<close>\<close>

lemma load_page_state:
  "load_page nav st url = (res, st') \<Longrightarrow>
     visited st' = visited st @ [url] \<and> files st' = files st \<and> released st' = released st
     \<and> fst (nav (browser st) url) = res"
  by (auto simp: load_page_def split: prod.splits)

lemma scrape_job_state:
  "scrape_job nav st url = (row, st') \<Longrightarrow>
     visited st' = visited st @ [url] \<and> files st' = files st \<and> released st' = released st"
  by (auto simp: scrape_job_def split: prod.splits sum.splits dest!: load_page_state)

lemma scrape_job_row:
  "scrape_job nav st url = (Some r, st') \<Longrightarrow> map fst r = record_keys \<and> r \<noteq> []"
proof -
  assume a: "scrape_job nav st url = (Some r, st')"
  then obtain soup where "extract_job_data soup = Inr (Some r)"
    by (auto simp: scrape_job_def split: prod.splits sum.splits)
  from record_has_the_17_keys [OF this] show ?thesis by auto
qed

lemma scrape_links_state:
  "scrape_links nav links data_rows st = (rows', st') \<Longrightarrow>
     visited st' = visited st @ map job_url_of links \<and> files st' = files st
     \<and> released st' = released st"
proof (induction links arbitrary: data_rows st)
  case Nil
  then show ?case by simp
next
  case (Cons link rest)
  obtain row st1 where sj: "scrape_job nav st (job_url_of link) = (row, st1)"
    by (cases "scrape_job nav st (job_url_of link)")
  let ?rows1 = "case row of None \<Rightarrow> data_rows | Some r \<Rightarrow> if r \<noteq> [] then data_rows @ [r] else data_rows"
  from Cons.prems sj have "scrape_links nav rest ?rows1 st1 = (rows', st')" by (simp add: Let_def)
  from Cons.IH [OF this] scrape_job_state [OF sj] show ?case by simp
qed

lemma scrape_links_rows:
  "scrape_links nav links data_rows st = (rows', st') \<Longrightarrow>
     \<exists>new. rows' = data_rows @ new \<and> length new \<le> length links
       \<and> (\<forall>r \<in> set new. map fst r = record_keys)"
proof (induction links arbitrary: data_rows st)
  case Nil
  then show ?case by simp
next
  case (Cons link rest)
  obtain row st1 where sj: "scrape_job nav st (job_url_of link) = (row, st1)"
    by (cases "scrape_job nav st (job_url_of link)")
  let ?rows1 = "case row of None \<Rightarrow> data_rows | Some r \<Rightarrow> if r \<noteq> [] then data_rows @ [r] else data_rows"
  from Cons.prems sj have sl: "scrape_links nav rest ?rows1 st1 = (rows', st')" by (simp add: Let_def)
  from Cons.IH [OF sl] obtain new where new: "rows' = ?rows1 @ new" "length new \<le> length rest"
    "\<forall>r \<in> set new. map fst r = record_keys" by blast
  show ?case
  proof (cases row)
    case None
    with new show ?thesis by (intro exI [of _ new]) simp
  next
    case (Some r)
    with sj have k: "map fst r = record_keys" "r \<noteq> []" using scrape_job_row by blast+
    with Some new show ?thesis by (intro exI [of _ "r # new"]) simp
  qed
qed

lemma row_values_ok:
  assumes "map fst r = fieldnames" "distinct fieldnames"
  shows "row_values fieldnames r = Inr (map snd r)"
proof -
  have d: "distinct (map fst r)" using assms by simp
  have "map (\<lambda>k. case map_of r k of None \<Rightarrow> [] | Some v \<Rightarrow> v) (map fst r) = map snd r"
    using d by (induction r) (auto intro!: map_cong simp: rev_image_eqI)
  moreover have "\<not> (\<exists>k \<in> set (map fst r). k \<notin> set fieldnames)" using assms(1) by auto
  ultimately show ?thesis unfolding row_values_def using assms(1) by simp
qed

lemma rows_values_ok:
  assumes "\<forall>r \<in> set rows. map fst r = fieldnames" "distinct fieldnames"
  shows "rows_values fieldnames rows = (map (map snd) rows, None)"
  using assms(1)
proof (induction rows)
  case Nil
  then show ?case by simp
next
  case (Cons r rs)
  from Cons.prems have "map fst r = fieldnames" by simp
  then have "row_values fieldnames r = Inr (map snd r)" using assms(2) by (rule row_values_ok)
  with Cons show ?case by simp
qed


lemma main_cases:
  obtains (load_raised) e b where "nav driver JOBS_URL = (Inl e, b)"
      "main nav driver home timestamp =
         (Raised e, \<lparr>browser = b, visited = [JOBS_URL], released = False, files = []\<rparr>)"
  | (no_links) soup b where "nav driver JOBS_URL = (Inr soup, b)" "get_job_links soup = Inr []"
      "main nav driver home timestamp =
         (No_links, \<lparr>browser = b, visited = [JOBS_URL], released = True, files = []\<rparr>)"
  | (no_rows) soup b job_links st2 where "nav driver JOBS_URL = (Inr soup, b)"
      "get_job_links soup = Inr job_links" "job_links \<noteq> []"
      "scrape_links nav (take 10 job_links) []
         \<lparr>browser = b, visited = [JOBS_URL], released = False, files = []\<rparr> = ([], st2)"
      "main nav driver home timestamp = (Done [], st2\<lparr>released := True\<rparr>)"
  | (rows) soup b job_links first_row others st2 where "nav driver JOBS_URL = (Inr soup, b)"
      "get_job_links soup = Inr job_links" "job_links \<noteq> []"
      "scrape_links nav (take 10 job_links) []
         \<lparr>browser = b, visited = [JOBS_URL], released = False, files = []\<rparr> = (first_row # others, st2)"
      "main nav driver home timestamp =
         (Done (first_row # others),
          st2\<lparr>released := True,
               files := files st2 @
                 [(path_join (path_join home (ustr ''Desktop''))
                     (ustr ''myjobmag_jobs_'' @ timestamp @ ustr ''.csv''),
                   record_keys, map (map snd) (first_row # others))]\<rparr>)"
proof -
  let ?st0 = "\<lparr>browser = driver, visited = [], released = False, files = []\<rparr>"
  obtain res b where n: "nav driver JOBS_URL = (res, b)" by (cases "nav driver JOBS_URL")
  let ?st1 = "\<lparr>browser = b, visited = [JOBS_URL], released = False, files = []\<rparr>"
  have lp: "load_page nav ?st0 JOBS_URL = (res, ?st1)" using n by (simp add: load_page_def)
  show thesis
  proof (cases res)
    case (Inl e)
    with lp have "main nav driver home timestamp = (Raised e, ?st1)" by (simp add: main_def)
    with n Inl show thesis by (intro load_raised [of e b]) simp_all
  next
    case (Inr soup)
    obtain job_links where gl: "get_job_links soup = Inr job_links"
      using get_job_links_total by blast
    show thesis
    proof (cases "job_links = []")
      case True
      with lp Inr gl have "main nav driver home timestamp = (No_links, ?st1\<lparr>released := True\<rparr>)"
        by (simp add: main_def)
      with n Inr gl True show thesis by (intro no_links [of soup b]) simp_all
    next
      case False
      obtain data_rows st2 where sl: "scrape_links nav (take 10 job_links) [] ?st1 = (data_rows, st2)"
        by (cases "scrape_links nav (take 10 job_links) [] ?st1")
      show thesis
      proof (cases data_rows)
        case Nil
        with lp Inr gl False sl have "main nav driver home timestamp = (Done [], st2\<lparr>released := True\<rparr>)"
          by (simp add: main_def)
        with n Inr gl False sl Nil show thesis by (intro no_rows [of soup b job_links st2]) simp_all
      next
        case (Cons first_row others)
        from scrape_links_rows [OF sl] have keys: "\<forall>r \<in> set data_rows. map fst r = record_keys"
          by auto
        then have fk: "map fst first_row = record_keys" using Cons by simp
        from keys have "rows_values record_keys data_rows = (map (map snd) data_rows, None)"
          using record_keys_distinct by (rule rows_values_ok)
        with lp Inr gl False sl Cons fk have "main nav driver home timestamp =
         (Done (first_row # others),
          st2\<lparr>released := True,
               files := files st2 @
                 [(path_join (path_join home (ustr ''Desktop''))
                     (ustr ''myjobmag_jobs_'' @ timestamp @ ustr ''.csv''),
                   record_keys, map (map snd) (first_row # others))]\<rparr>)"
          by (simp add: main_def Let_def)
        with n Inr gl False sl Cons show thesis
          by (intro rows [of soup b job_links first_row others st2]) simp_all
      qed
    qed
  qed
qed

lemma main_facts:
  assumes m: "main nav driver home timestamp = (out, st)"
  shows "length (visited st) \<le> 11"
    and "\<forall>rows. out = Done rows \<longrightarrow> length rows \<le> 10 \<and> (\<forall>r \<in> set rows. map fst r = record_keys)"
    and "\<forall>soup b job_links. nav driver JOBS_URL = (Inr soup, b) \<and> get_job_links soup = Inr job_links \<longrightarrow>
           visited st = JOBS_URL # map job_url_of (take 10 job_links)"
    and "files st \<noteq> [] \<longleftrightarrow> (\<exists>rows. out = Done rows \<and> rows \<noteq> [])"
    and "\<forall>f \<in> set (files st). fst (snd f) = record_keys \<and> (\<forall>rows. out = Done rows \<longrightarrow> snd (snd f) = map (map snd) rows)"
    and "length (files st) \<le> 1"
    and "\<forall>soup b. nav driver JOBS_URL = (Inr soup, b) \<longrightarrow>
           (out = No_links \<and> get_job_links soup = Inr [] \<or> (\<exists>rows. out = Done rows)) \<and> released st"
    and "\<forall>soup b. nav driver JOBS_URL = (Inr soup, b) \<and> get_job_links soup = Inr [] \<longrightarrow>
           out = No_links \<and> files st = []"
    and "\<forall>e. out = Raised e \<longrightarrow> (\<exists>b. nav driver JOBS_URL = (Inl e, b)) \<and> files st = []"
proof -
  let ?st1 = "\<lambda>b. \<lparr>browser = b, visited = [JOBS_URL], released = False, files = []\<rparr>"
  have all: "length (visited st) \<le> 11
    \<and> (\<forall>rows. out = Done rows \<longrightarrow> length rows \<le> 10 \<and> (\<forall>r \<in> set rows. map fst r = record_keys))
    \<and> (\<forall>soup b job_links. nav driver JOBS_URL = (Inr soup, b) \<and> get_job_links soup = Inr job_links \<longrightarrow>
           visited st = JOBS_URL # map job_url_of (take 10 job_links))
    \<and> (files st \<noteq> [] \<longleftrightarrow> (\<exists>rows. out = Done rows \<and> rows \<noteq> []))
    \<and> (\<forall>f \<in> set (files st). fst (snd f) = record_keys \<and> (\<forall>rows. out = Done rows \<longrightarrow> snd (snd f) = map (map snd) rows))
    \<and> length (files st) \<le> 1
    \<and> (\<forall>soup b. nav driver JOBS_URL = (Inr soup, b) \<longrightarrow>
           (out = No_links \<and> get_job_links soup = Inr [] \<or> (\<exists>rows. out = Done rows)) \<and> released st)
    \<and> (\<forall>soup b. nav driver JOBS_URL = (Inr soup, b) \<and> get_job_links soup = Inr [] \<longrightarrow>
           out = No_links \<and> files st = [])
    \<and> (\<forall>e. out = Raised e \<longrightarrow> (\<exists>b. nav driver JOBS_URL = (Inl e, b)) \<and> files st = [])"
  proof (cases nav driver home timestamp rule: main_cases)
    case (load_raised e b)
    with m show ?thesis by auto
  next
    case (no_links soup b)
    with m show ?thesis by auto
  next
    case (no_rows soup b job_links st2)
    from scrape_links_state [OF no_rows(4)]
    have s: "visited st2 = JOBS_URL # map job_url_of (take 10 job_links)" "files st2 = []" by simp_all
    have "length (visited st2) \<le> 11" unfolding s by simp
    with no_rows(1,2,3,5) m s show ?thesis by auto
  next
    case (rows soup b job_links first_row others st2)
    from scrape_links_state [OF rows(4)]
    have s: "visited st2 = JOBS_URL # map job_url_of (take 10 job_links)" "files st2 = []" by simp_all
    have lv: "length (visited st2) \<le> 11" unfolding s by simp
    from scrape_links_rows [OF rows(4)]
    have r: "length (first_row # others) \<le> 10" "\<forall>r \<in> set (first_row # others). map fst r = record_keys"
      by auto
    from m rows(5) have o: "out = Done (first_row # others)" and
      st: "st = st2\<lparr>released := True,
               files := files st2 @
                 [(path_join (path_join home (ustr ''Desktop''))
                     (ustr ''myjobmag_jobs_'' @ timestamp @ ustr ''.csv''),
                   record_keys, map (map snd) (first_row # others))]\<rparr>" by simp_all
    show ?thesis unfolding o st using rows(1,2,3) s lv r by auto
  qed
  from all show "length (visited st) \<le> 11" by (elim conjE)
  from all show "\<forall>rows. out = Done rows \<longrightarrow> length rows \<le> 10 \<and> (\<forall>r \<in> set rows. map fst r = record_keys)" by (elim conjE)
  from all show "\<forall>soup b job_links. nav driver JOBS_URL = (Inr soup, b) \<and> get_job_links soup = Inr job_links \<longrightarrow>
           visited st = JOBS_URL # map job_url_of (take 10 job_links)" by (elim conjE)
  from all show "files st \<noteq> [] \<longleftrightarrow> (\<exists>rows. out = Done rows \<and> rows \<noteq> [])" by (elim conjE)
  from all show "\<forall>f \<in> set (files st). fst (snd f) = record_keys \<and> (\<forall>rows. out = Done rows \<longrightarrow> snd (snd f) = map (map snd) rows)" by (elim conjE)
  from all show "length (files st) \<le> 1" by (elim conjE)
  from all show "\<forall>soup b. nav driver JOBS_URL = (Inr soup, b) \<longrightarrow>
           (out = No_links \<and> get_job_links soup = Inr [] \<or> (\<exists>rows. out = Done rows)) \<and> released st" by (elim conjE)
  from all show "\<forall>soup b. nav driver JOBS_URL = (Inr soup, b) \<and> get_job_links soup = Inr [] \<longrightarrow>
           out = No_links \<and> files st = []" by (elim conjE)
  from all show "\<forall>e. out = Raised e \<longrightarrow> (\<exists>b. nav driver JOBS_URL = (Inl e, b)) \<and> files st = []" by (elim conjE)
qed

lemma links_twelve:
  "get_job_links listing_twelve =
     Inr (map (\<lambda>n. ustr ''/job/'' @ ustr n) [''a'', ''b'', ''c'', ''d'', ''e'', ''f'', ''g'', ''h'', ''i'', ''j'', ''k'', ''l''])"
  by (simp add: get_job_links_def selectors_def listing_twelve_def job_link_def select_def
        walk_all_def link_eval has_class_def text_eval)

lemma links_empty: "get_job_links [] = Inr []"
  by (simp add: get_job_links_def selectors_def select_def walk_all_def find_all_def descendants_def)

lemma email_page_record: "\<exists>r. extract_job_data page_with_email = Inr (Some r)"
proof (cases page_with_email rule: extract_job_data_cases)
  case (err e)
  with contact_with_email show ?thesis by simp
next
  case none
  with contact_with_email show ?thesis by (simp add: ustr_def)
next
  case (some email url title company)
  then show ?thesis by blast
qed

lemma twelve_first_row:
  "\<exists>r st1. scrape_job nav_twelve st (job_url_of (ustr ''/job/'' @ ustr ''a'')) = (Some r, st1) \<and> r \<noteq> []"
proof -
  from email_page_record obtain r where r: "extract_job_data page_with_email = Inr (Some r)" by blast
  from record_has_the_17_keys [OF r] have "r \<noteq> []" by auto
  moreover have "job_url_of (ustr ''/job/'' @ ustr ''a'') \<noteq> JOBS_URL"
    by (simp add: job_url_of_def startswith_def JOBS_URL_def BASE_URL_def ustr_def)
  ultimately show ?thesis
    using r by (simp add: scrape_job_def load_page_def nav_twelve_def)
qed

lemma scrape_links_first_row:
  assumes "scrape_links nav (link # rest) data_rows st = (rows', st')"
    and "scrape_job nav st (job_url_of link) = (Some r, st1)" and "r \<noteq> []"
  shows "rows' \<noteq> []"
proof -
  from assms have "scrape_links nav rest (data_rows @ [r]) st1 = (rows', st')"
    by (simp add: Let_def)
  from scrape_links_rows [OF this] show ?thesis by auto
qed

lemma twelve_rows: "\<exists>rows. fst (main nav_twelve () [] []) = Done rows \<and> rows \<noteq> []"
proof (cases nav_twelve "()" "[]::ustr" "[]::ustr" rule: main_cases)
  case (load_raised e b)
  then show ?thesis by (simp add: nav_twelve_def)
next
  case (no_links soup b)
  then have "soup = listing_twelve" by (simp add: nav_twelve_def)
  with no_links(2) links_twelve show ?thesis by simp
next
  case (no_rows soup b job_links st2)
  then have "soup = listing_twelve" by (simp add: nav_twelve_def)
  with no_rows(2) links_twelve have jl: "take 10 job_links =
      (ustr ''/job/'' @ ustr ''a'') # take 9 (map (\<lambda>n. ustr ''/job/'' @ ustr n)
        [''b'', ''c'', ''d'', ''e'', ''f'', ''g'', ''h'', ''i'', ''j'', ''k'', ''l''])"
    by auto
  from twelve_first_row obtain r st1 where
    "scrape_job nav_twelve \<lparr>browser = b, visited = [JOBS_URL], released = False, files = []\<rparr>
       (job_url_of (ustr ''/job/'' @ ustr ''a'')) = (Some r, st1)" "r \<noteq> []" by blast
  from scrape_links_first_row [OF no_rows(4) [unfolded jl] this] show ?thesis by simp
next
  case (rows soup b job_links first_row others st2)
  then show ?thesis by simp
qed

text \<open>
  Claim C6.  A run navigates to the listing page and then to the first 10 collected links,
  in their order, and to no other; so it navigates to at most 11 pages and the batch has
  at most 10 records.
\<close>

theorem main_visits_first_ten_links:
  assumes "main nav driver home timestamp = (out, st)"
  shows "length (visited st) \<le> 11
       \<and> (\<forall>rows. out = Done rows \<longrightarrow> length rows \<le> 10)
       \<and> (\<forall>soup b job_links. nav driver JOBS_URL = (Inr soup, b) \<and> get_job_links soup = Inr job_links \<longrightarrow>
             visited st = JOBS_URL # map job_url_of (take 10 job_links))"
  using main_facts(1,2,3) [OF assms] by blast

theorem main_visits_first_ten_links_witness:
  "visited (snd (main nav_twelve () [] [])) =
     JOBS_URL # map (\<lambda>n. BASE_URL @ ustr ''/job/'' @ ustr n)
                  [''a'', ''b'', ''c'', ''d'', ''e'', ''f'', ''g'', ''h'', ''i'', ''j'']
   \<and> length (visited (snd (main nav_twelve () [] []))) \<le> 11"
proof -
  have m: "main nav_twelve () [] [] = (fst (main nav_twelve () [] []), snd (main nav_twelve () [] []))"
    by simp
  have n: "nav_twelve () JOBS_URL = (Inr listing_twelve, ())" by (simp add: nav_twelve_def)
  note t = main_visits_first_ten_links [OF m]
  from t [THEN conjunct2, THEN conjunct2, rule_format, OF conjI, OF n links_twelve]
  have "visited (snd (main nav_twelve () [] [])) =
     JOBS_URL # map job_url_of (take 10 (map (\<lambda>n. ustr ''/job/'' @ ustr n)
        [''a'', ''b'', ''c'', ''d'', ''e'', ''f'', ''g'', ''h'', ''i'', ''j'', ''k'', ''l'']))" .
  then have "visited (snd (main nav_twelve () [] [])) =
     JOBS_URL # map (\<lambda>n. BASE_URL @ ustr ''/job/'' @ ustr n)
                  [''a'', ''b'', ''c'', ''d'', ''e'', ''f'', ''g'', ''h'', ''i'', ''j'']"
    by (simp add: job_url_of_def startswith_def ustr_def)
  with t [THEN conjunct1] show ?thesis by simp
qed

lemma scrape_job_yield:
  "scrape_job nav st url =
     (fst (page_yield nav (browser st) url),
      st\<lparr>browser := snd (page_yield nav (browser st) url), visited := visited st @ [url]\<rparr>)"
  by (auto simp: scrape_job_def load_page_def page_yield_def split: prod.splits sum.splits option.splits)

lemma scrape_links_yields:
  "scrape_links nav links data_rows st = (rows', st') \<Longrightarrow>
     rows' = data_rows @ records_of (page_yields nav (browser st) (map job_url_of links))"
proof (induction links arbitrary: data_rows st)
  case Nil
  then show ?case by simp
next
  case (Cons link rest)
  obtain y b1 where py: "page_yield nav (browser st) (job_url_of link) = (y, b1)"
    by (cases "page_yield nav (browser st) (job_url_of link)")
  let ?st1 = "st\<lparr>browser := b1, visited := visited st @ [job_url_of link]\<rparr>"
  have sj: "scrape_job nav st (job_url_of link) = (y, ?st1)"
    using py by (simp add: scrape_job_yield)
  let ?rows1 = "case y of None \<Rightarrow> data_rows | Some r \<Rightarrow> if r \<noteq> [] then data_rows @ [r] else data_rows"
  from Cons.prems sj have sl: "scrape_links nav rest ?rows1 ?st1 = (rows', st')" by (simp add: Let_def)
  from Cons.IH [OF sl] have r: "rows' = ?rows1 @ records_of (page_yields nav b1 (map job_url_of rest))"
    by simp
  show ?case
  proof (cases y)
    case None
    with r py show ?thesis by simp
  next
    case (Some r0)
    with sj have "r0 \<noteq> []" using scrape_job_row by blast
    with Some r py show ?thesis by simp
  qed
qed

lemma records_of_empty: "records_of ys = [] \<longleftrightarrow> (\<forall>y \<in> set ys. y = None)"
  by (induction ys rule: records_of.induct) auto

lemma main_yields:
  assumes m: "main nav driver home timestamp = (out, st)"
    and n: "nav driver JOBS_URL = (Inr soup, b)"
    and g: "get_job_links soup = Inr job_links" and ne: "job_links \<noteq> []"
  shows "out = Done (records_of (page_yields nav b (map job_url_of (take 10 job_links))))"
proof (cases nav driver home timestamp rule: main_cases)
  case (load_raised e b')
  with n show ?thesis by simp
next
  case (no_links soup' b')
  with n g ne show ?thesis by simp
next
  case (no_rows soup' b' job_links' st2)
  with n g have eq: "soup' = soup" "b' = b" "job_links' = job_links" by simp_all
  from scrape_links_yields [OF no_rows(4)] eq
  have "[] = records_of (page_yields nav b (map job_url_of (take 10 job_links)))" by simp
  with m no_rows(5) show ?thesis by simp
next
  case (rows soup' b' job_links' first_row others st2)
  with n g have eq: "soup' = soup" "b' = b" "job_links' = job_links" by simp_all
  from scrape_links_yields [OF rows(4)] eq
  have "first_row # others = records_of (page_yields nav b (map job_url_of (take 10 job_links)))" by simp
  with m rows(5) show ?thesis by simp
qed

lemma contact_listing_twelve: "application_contact listing_twelve = Inr ([], [])"
  by (simp add: listing_twelve_def job_link_def job_eval dom_eval text_eval)

lemma listing_twelve_no_record: "extract_job_data listing_twelve = Inr None"
proof (cases listing_twelve rule: extract_job_data_cases)
  case (err e)
  with contact_listing_twelve show ?thesis by simp
next
  case none
  then show ?thesis by simp
next
  case (some email url title company)
  with contact_listing_twelve show ?thesis by simp
qed

lemma no_record_yields: "y \<in> set (page_yields nav_no_record b urls) \<Longrightarrow> y = None"
  by (induction urls arbitrary: b)
     (auto simp: page_yield_def nav_no_record_def listing_twelve_no_record)

text \<open>
  Claim C7.  A run writes a file exactly when it ends with a non-empty batch, and it
  writes at most one.  Once the listing page has loaded the run does not raise: it ends
  with no links, no file and the session released, or with a batch; a run raises only when
  the load of the listing page raises, and then writes no file.  When links are found, the
  batch is made of the records that the first 10 visited pages yield, in their order: so
  when every visited page yields no record the batch is empty and no file is written, and
  when some visited page yields a record one file is written.
\<close>

theorem main_writes_file_iff_batch_nonempty:
  assumes "main nav driver home timestamp = (out, st)"
  shows "(files st \<noteq> [] \<longleftrightarrow> (\<exists>rows. out = Done rows \<and> rows \<noteq> []))
       \<and> length (files st) \<le> 1
       \<and> (\<forall>soup b. nav driver JOBS_URL = (Inr soup, b) \<longrightarrow>
             (out = No_links \<and> get_job_links soup = Inr [] \<or> (\<exists>rows. out = Done rows)) \<and> released st)
       \<and> (\<forall>soup b. nav driver JOBS_URL = (Inr soup, b) \<and> get_job_links soup = Inr [] \<longrightarrow>
             out = No_links \<and> files st = [])
       \<and> (\<forall>e. out = Raised e \<longrightarrow> (\<exists>b. nav driver JOBS_URL = (Inl e, b)) \<and> files st = [])
       \<and> (\<forall>soup b job_links.
             nav driver JOBS_URL = (Inr soup, b) \<and> get_job_links soup = Inr job_links \<and> job_links \<noteq> [] \<longrightarrow>
               out = Done (records_of (page_yields nav b (map job_url_of (take 10 job_links))))
             \<and> ((\<forall>y \<in> set (page_yields nav b (map job_url_of (take 10 job_links))). y = None) \<longrightarrow>
                   out = Done [] \<and> files st = [])
             \<and> ((\<exists>r. Some r \<in> set (page_yields nav b (map job_url_of (take 10 job_links)))) \<longrightarrow>
                   length (files st) = 1))"
proof -
  note f = main_facts(4,6,7,8,9) [OF assms]
  have y: "\<forall>soup b job_links.
             nav driver JOBS_URL = (Inr soup, b) \<and> get_job_links soup = Inr job_links \<and> job_links \<noteq> [] \<longrightarrow>
               out = Done (records_of (page_yields nav b (map job_url_of (take 10 job_links))))
             \<and> ((\<forall>y \<in> set (page_yields nav b (map job_url_of (take 10 job_links))). y = None) \<longrightarrow>
                   out = Done [] \<and> files st = [])
             \<and> ((\<exists>r. Some r \<in> set (page_yields nav b (map job_url_of (take 10 job_links)))) \<longrightarrow>
                   length (files st) = 1)"
  proof (intro allI impI)
    fix soup b job_links
    assume a: "nav driver JOBS_URL = (Inr soup, b) \<and> get_job_links soup = Inr job_links \<and> job_links \<noteq> []"
    let ?ys = "page_yields nav b (map job_url_of (take 10 job_links))"
    from a have o: "out = Done (records_of ?ys)"
      using main_yields [OF assms] by blast
    have none: "(\<forall>y \<in> set ?ys. y = None) \<longrightarrow> out = Done [] \<and> files st = []"
    proof
      assume "\<forall>y \<in> set ?ys. y = None"
      then have "records_of ?ys = []" by (simp add: records_of_empty)
      with o have d: "out = Done []" by simp
      with f(1) have "files st = []" by auto
      with d show "out = Done [] \<and> files st = []" by simp
    qed
    have some: "(\<exists>r. Some r \<in> set ?ys) \<longrightarrow> length (files st) = 1"
    proof
      assume "\<exists>r. Some r \<in> set ?ys"
      then have "\<not> (\<forall>y \<in> set ?ys. y = None)" by auto
      then have "records_of ?ys \<noteq> []" by (simp add: records_of_empty)
      with o f(1) have "files st \<noteq> []" by auto
      with f(2) show "length (files st) = 1" by (cases "files st") auto
    qed
    from o none some show "out = Done (records_of ?ys)
             \<and> ((\<forall>y \<in> set ?ys. y = None) \<longrightarrow> out = Done [] \<and> files st = [])
             \<and> ((\<exists>r. Some r \<in> set ?ys) \<longrightarrow> length (files st) = 1)" by (intro conjI)
  qed
  from f y show ?thesis by (intro conjI)
qed

theorem main_writes_file_iff_batch_nonempty_witness:
  "fst (main nav_no_links () [] []) = No_links \<and> files (snd (main nav_no_links () [] [])) = []
   \<and> files (snd (main nav_twelve () [] [])) \<noteq> []
   \<and> fst (main nav_no_record () [] []) = Done [] \<and> files (snd (main nav_no_record () [] [])) = []"
proof -
  have m0: "main nav_no_links () [] [] = (fst (main nav_no_links () [] []), snd (main nav_no_links () [] []))"
    by simp
  have n0: "nav_no_links () JOBS_URL = (Inr [], ())" by (simp add: nav_no_links_def)
  from main_writes_file_iff_batch_nonempty [OF m0, THEN conjunct2, THEN conjunct2, THEN conjunct2,
      THEN conjunct1, rule_format, OF conjI, OF n0 links_empty]
  have a: "fst (main nav_no_links () [] []) = No_links \<and> files (snd (main nav_no_links () [] [])) = []" .
  have m: "main nav_twelve () [] [] = (fst (main nav_twelve () [] []), snd (main nav_twelve () [] []))"
    by simp
  from main_writes_file_iff_batch_nonempty [OF m, THEN conjunct1] twelve_rows
  have b: "files (snd (main nav_twelve () [] [])) \<noteq> []" by simp
  have m1: "main nav_no_record () [] [] = (fst (main nav_no_record () [] []), snd (main nav_no_record () [] []))"
    by simp
  have n1: "nav_no_record () JOBS_URL = (Inr listing_twelve, ())" by (simp add: nav_no_record_def)
  have l1: "map (\<lambda>n. ustr ''/job/'' @ ustr n)
              [''a'', ''b'', ''c'', ''d'', ''e'', ''f'', ''g'', ''h'', ''i'', ''j'', ''k'', ''l''] \<noteq> []"
    by simp
  have h: "nav_no_record () JOBS_URL = (Inr listing_twelve, ())
         \<and> get_job_links listing_twelve = Inr (map (\<lambda>n. ustr ''/job/'' @ ustr n)
              [''a'', ''b'', ''c'', ''d'', ''e'', ''f'', ''g'', ''h'', ''i'', ''j'', ''k'', ''l''])
         \<and> map (\<lambda>n. ustr ''/job/'' @ ustr n)
              [''a'', ''b'', ''c'', ''d'', ''e'', ''f'', ''g'', ''h'', ''i'', ''j'', ''k'', ''l''] \<noteq> []"
    using n1 links_twelve l1 by (intro conjI)
  note t = main_writes_file_iff_batch_nonempty [OF m1, THEN conjunct2, THEN conjunct2, THEN conjunct2,
      THEN conjunct2, THEN conjunct2, rule_format, OF h]
  have "\<forall>y \<in> set (page_yields nav_no_record () (map job_url_of (take 10
           (map (\<lambda>n. ustr ''/job/'' @ ustr n)
              [''a'', ''b'', ''c'', ''d'', ''e'', ''f'', ''g'', ''h'', ''i'', ''j'', ''k'', ''l''])))). y = None"
    using no_record_yields by blast
  with t [THEN conjunct2, THEN conjunct1]
  have c: "fst (main nav_no_record () [] []) = Done [] \<and> files (snd (main nav_no_record () [] [])) = []"
    by (rule mp)
  from a b c show ?thesis by simp
qed

text \<open>
  Claim C10.  A record returned by \<open>extract_job_data\<close> has exactly the 17 keys of
  \<open>record_keys\<close>, in that order.  So every record of the batch of a run has these keys, and
  the header of the file the run writes, taken from the first record, is \<open>record_keys\<close>,
  with the values of each record below it in that order.
\<close>

theorem records_share_the_17_keys:
  "(extract_job_data soup = Inr (Some r) \<longrightarrow> map fst r = record_keys)
   \<and> length record_keys = 17 \<and> distinct record_keys
   \<and> (main nav driver home timestamp = (out, st) \<longrightarrow>
        (\<forall>rows. out = Done rows \<longrightarrow> (\<forall>r \<in> set rows. map fst r = record_keys))
      \<and> (\<forall>f \<in> set (files st). fst (snd f) = record_keys
            \<and> (\<forall>rows. out = Done rows \<longrightarrow> snd (snd f) = map (map snd) rows)))"
proof (intro conjI impI)
  assume "extract_job_data soup = Inr (Some r)"
  from record_has_the_17_keys [OF this] show "map fst r = record_keys" by simp
next
  show "length record_keys = 17" by (simp add: record_keys_def)
next
  show "distinct record_keys" by (rule record_keys_distinct)
next
  assume "main nav driver home timestamp = (out, st)"
  from main_facts(2) [OF this]
  show "\<forall>rows. out = Done rows \<longrightarrow> (\<forall>r \<in> set rows. map fst r = record_keys)" by blast
next
  assume "main nav driver home timestamp = (out, st)"
  from main_facts(5) [OF this]
  show "\<forall>f \<in> set (files st). fst (snd f) = record_keys
            \<and> (\<forall>rows. out = Done rows \<longrightarrow> snd (snd f) = map (map snd) rows)" .
qed


theorem records_share_the_17_keys_witness:
  "(\<exists>r. extract_job_data page_with_email = Inr (Some r) \<and> map fst r = record_keys)
   \<and> (\<exists>f. files (snd (main nav_twelve () [] [])) = [f] \<and> fst (snd f) = record_keys)"
proof (rule conjI)
  from email_page_record obtain r where r: "extract_job_data page_with_email = Inr (Some r)" by blast
  from records_share_the_17_keys [of page_with_email r, THEN conjunct1, THEN mp, OF r] r
  show "\<exists>r. extract_job_data page_with_email = Inr (Some r) \<and> map fst r = record_keys" by blast
next
  let ?out = "fst (main nav_twelve () [] [])" and ?st = "snd (main nav_twelve () [] [])"
  have m: "main nav_twelve () [] [] = (?out, ?st)" by simp
  from main_facts(4) [OF m] twelve_rows have "files ?st \<noteq> []" by simp
  moreover from main_facts(6) [OF m] have "length (files ?st) \<le> 1" .
  ultimately obtain f where f: "files ?st = [f]"
    by (cases "files ?st") (auto simp: length_Suc_conv)
  from records_share_the_17_keys [of _ _ nav_twelve "()" "[]" "[]" ?out ?st,
      THEN conjunct2, THEN conjunct2, THEN conjunct2, THEN mp, OF m, THEN conjunct2]
  have "\<forall>f \<in> set (files ?st). fst (snd f) = record_keys
            \<and> (\<forall>rows. ?out = Done rows \<longrightarrow> snd (snd f) = map (map snd) rows)" .
  with f have "fst (snd f) = record_keys" by simp
  with f show "\<exists>f. files ?st = [f] \<and> fst (snd f) = record_keys" by blast
qed

end
